theory Spec2Isabelle
  imports Complex_Main "HOL-Library.Product_Lexorder"
begin

section \<open>Numbers and strings\<close>

text \<open>
  Outside the swap simulator, JavaScript numbers are modelled by the reals: every arithmetic
  operation is the exact one, and the only place where the range of a double matters is
  \<^verbatim>\<open>Number.isFinite\<close>: a correctly rounded result is a finite double exactly when its
  magnitude lies below the overflow threshold \<open>2^1024 - 2^970\<close> (half-way between the largest
  double and \<open>2^1024\<close>).  The swap simulator, whose properties depend on rounding, is modelled
  in binary64 arithmetic (next section).  Strings are byte strings; \<^verbatim>\<open>toLowerCase\<close> and SQL
  \<^verbatim>\<open>lower\<close> are the ASCII mapping of \<open>A..Z\<close> to \<open>a..z\<close>.
\<close>

definition Number_isFinite :: "real \<Rightarrow> bool" where
  "Number_isFinite x = (\<bar>x\<bar> < 2 ^ 1024 - 2 ^ 970)"

definition lower_char :: "char \<Rightarrow> char" where
  "lower_char c =
     (case map_of (zip ''ABCDEFGHIJKLMNOPQRSTUVWXYZ'' ''abcdefghijklmnopqrstuvwxyz'') c of
        Some d \<Rightarrow> d
      | None \<Rightarrow> c)"

definition toLowerCase :: "string \<Rightarrow> string" where
  "toLowerCase s = map lower_char s"



section \<open>Binary64 arithmetic\<close>

text \<open>
  The swap simulator is modelled in IEEE 754 binary64, the arithmetic of JavaScript numbers:
  a \<open>number\<close> is a finite value, an infinity or \<^verbatim>\<open>NaN\<close>, and every arithmetic operation
  returns the exact result rounded to the nearest double, ties to even (\<open>round64\<close>).  The
  doubles of binade \<open>e\<close> are the multiples of \<open>2^(e - 52)\<close>; the binades run from \<open>-1022\<close>
  (which also holds the subnormal numbers) to \<open>1023\<close>, and a result of magnitude
  \<open>2^1024 - 2^970\<close> or more rounds to an infinity.  Zero carries no sign: the only division of
  the simulator whose divisor can be zero divides by a sum, which is \<open>+0\<close> when it is zero.
\<close>

datatype number = Fin real | PInf | NInf | NaN

definition round_even :: "real \<Rightarrow> int" where
  "round_even r =
     (let f = \<lfloor>r\<rfloor>; d = r - of_int f
      in if d < 1 / 2 then f else if 1 / 2 < d then f + 1 else if even f then f else f + 1)"

fun binade_from :: "nat \<Rightarrow> real \<Rightarrow> int" where
  "binade_from 0 x = - 1022"
| "binade_from (Suc k) x =
     (if 2 powi (int (Suc k) - 1022) \<le> x then int (Suc k) - 1022 else binade_from k x)"

definition binade :: "real \<Rightarrow> int" where
  "binade x = binade_from 2045 \<bar>x\<bar>"

definition rn :: "real \<Rightarrow> real" where
  "rn x = of_int (round_even (x / 2 powi (binade x - 52))) * 2 powi (binade x - 52)"

definition round64 :: "real \<Rightarrow> number" where
  "round64 x =
     (if 2 ^ 1024 - 2 ^ 970 \<le> \<bar>x\<bar> then (if 0 < x then PInf else NInf) else Fin (rn x))"

text \<open>The sign of a number, and the infinity (or \<^verbatim>\<open>NaN\<close>) of a given sign.\<close>

fun sign_of :: "number \<Rightarrow> real" where
  "sign_of (Fin x) = sgn x"
| "sign_of PInf = 1"
| "sign_of NInf = - 1"
| "sign_of NaN = 0"

definition inf_of :: "real \<Rightarrow> number" where
  "inf_of s = (if 0 < s then PInf else if s < 0 then NInf else NaN)"

fun num_neg :: "number \<Rightarrow> number" where
  "num_neg (Fin x) = Fin (- x)"
| "num_neg PInf = NInf"
| "num_neg NInf = PInf"
| "num_neg NaN = NaN"

fun num_add :: "number \<Rightarrow> number \<Rightarrow> number" where
  "num_add NaN b = NaN"
| "num_add a NaN = NaN"
| "num_add (Fin x) (Fin y) = round64 (x + y)"
| "num_add PInf NInf = NaN"
| "num_add NInf PInf = NaN"
| "num_add PInf b = PInf"
| "num_add NInf b = NInf"
| "num_add (Fin x) b = b"

definition num_sub :: "number \<Rightarrow> number \<Rightarrow> number" where
  "num_sub a b = num_add a (num_neg b)"

fun num_mul :: "number \<Rightarrow> number \<Rightarrow> number" where
  "num_mul NaN b = NaN"
| "num_mul a NaN = NaN"
| "num_mul (Fin x) (Fin y) = round64 (x * y)"
| "num_mul a b = inf_of (sign_of a * sign_of b)"

fun num_div :: "number \<Rightarrow> number \<Rightarrow> number" where
  "num_div NaN b = NaN"
| "num_div a NaN = NaN"
| "num_div (Fin x) (Fin y) = (if y = 0 then inf_of x else round64 (x / y))"
| "num_div (Fin x) b = Fin 0"
| "num_div a (Fin y) = inf_of (sign_of a * (if y < 0 then - 1 else 1))"
| "num_div a b = NaN"

text \<open>\<^verbatim>\<open>a > b\<close> and \<^verbatim>\<open>Math.max(a, b)\<close>.\<close>

fun num_gt :: "number \<Rightarrow> number \<Rightarrow> bool" where
  "num_gt NaN b = False"
| "num_gt a NaN = False"
| "num_gt (Fin x) (Fin y) = (y < x)"
| "num_gt PInf b = (b \<noteq> PInf)"
| "num_gt NInf b = False"
| "num_gt (Fin x) b = (b = NInf)"

fun num_max :: "number \<Rightarrow> number \<Rightarrow> number" where
  "num_max NaN b = NaN"
| "num_max a NaN = NaN"
| "num_max a b = (if num_gt b a then b else a)"

text \<open>The literal \<^verbatim>\<open>1e-18\<close>.\<close>

definition lit_1e_18 :: number where
  "lit_1e_18 = round64 (1 / 10 ^ 18)"

text \<open>The unit roundoff of binary64.\<close>

definition u64 :: real where
  "u64 = 1 / 2 ^ 53"

text \<open>
  \<open>close_to n x y\<close>: the computed value \<open>y\<close> lies within \<open>n\<close> roundings of the positive exact
  value \<open>x\<close>.
\<close>

definition close_to :: "nat \<Rightarrow> real \<Rightarrow> real \<Rightarrow> bool" where
  "close_to n x y = (0 < x \<and> x * (1 - u64) ^ n \<le> y \<and> y * (1 - u64) ^ n \<le> x)"

section \<open>Constant-product swap simulator\<close>






text \<open>
  \<^verbatim>\<open>simulateXYK\<close> (identical in \<^verbatim>\<open>TokensService\<close> and \<^verbatim>\<open>SwapService\<close>).
\<close>

record sim =
  out :: number
  price :: number
  impact :: number

definition simulateXYK :: "bool \<Rightarrow> number \<Rightarrow> number \<Rightarrow> number \<Rightarrow> number \<Rightarrow> sim" where
  "simulateXYK fromIsZig amountIn Rz Rt fee =
     (if \<not> (num_gt Rz (Fin 0) \<and> num_gt Rt (Fin 0)) \<or> \<not> num_gt amountIn (Fin 0)
      then \<lparr>out = Fin 0, price = Fin 0, impact = Fin 0\<rparr>
      else
        let mid = num_div Rz Rt;
            xin = num_mul amountIn (num_sub (Fin 1) fee)
        in if fromIsZig then
             let outToken = num_div (num_mul xin Rt) (num_add Rz xin);
                 effZigPerToken = num_div amountIn (num_max outToken lit_1e_18);
                 imp = (if num_gt mid (Fin 0)
                        then num_sub (num_div effZigPerToken mid) (Fin 1) else Fin 0)
             in \<lparr>out = outToken, price = effZigPerToken, impact = imp\<rparr>
           else
             let outZig = num_div (num_mul xin Rz) (num_add Rt xin);
                 effZigPerToken = num_div outZig amountIn;
                 imp = (if num_gt mid (Fin 0)
                        then num_sub (num_div mid (num_max effZigPerToken lit_1e_18)) (Fin 1)
                        else Fin 0)
             in \<lparr>out = outZig, price = effZigPerToken, impact = imp\<rparr>)"

section \<open>OHLCV aggregation\<close>

text \<open>
  The bucket loop shared by \<^verbatim>\<open>TokensService.ohlcvAdvanced\<close> and
  \<^verbatim>\<open>TokensService.ohlcvUzigFromUsdc\<close> (the two loops are the same text).  A \<open>bar\<close> is both
  a row of \<^verbatim>\<open>bySec\<close> (the aggregated source bar of a bucket, \<open>ts_sec\<close> standing for its
  \<^verbatim>\<open>sec\<close>) and an emitted bar.  The field \<^verbatim>\<open>open\<close> is called \<open>open_v\<close> here.
\<close>

datatype fill = FillPrev | FillZero | FillNone

record bar =
  ts_sec :: int
  open_v :: real
  high :: real
  low :: real
  close :: real
  volume :: real
  trades :: real

text \<open>
  \<^verbatim>\<open>Math.floor(new Date(iso).getTime() / 1000 / stepSec) * stepSec\<close>, on the epoch
  milliseconds of a valid timestamp.
\<close>

definition alignSec :: "int \<Rightarrow> int \<Rightarrow> int" where
  "alignSec ms stepSec = \<lfloor>real_of_int ms / 1000 / real_of_int stepSec\<rfloor> * stepSec"

text \<open>
  \<^verbatim>\<open>(fill === 'prev' && Number.isFinite(seedPrevClose)) ? Number(seedPrevClose) : null\<close>;
  an absent seed is \<open>None\<close>.
\<close>

definition initPrevClose :: "fill \<Rightarrow> real option \<Rightarrow> real option" where
  "initPrevClose fl seedPrevClose =
     (case seedPrevClose of
        Some v \<Rightarrow> if fl = FillPrev \<and> Number_isFinite v then Some v else None
      | None \<Rightarrow> None)"

text \<open>
  One pass through the loop body at bucket \<open>ts\<close>: the bar pushed to \<^verbatim>\<open>out\<close> (if any) and the
  value of \<^verbatim>\<open>prevClose\<close> afterwards.
\<close>

definition bucket_step ::
  "fill \<Rightarrow> (int \<rightharpoonup> bar) \<Rightarrow> int \<Rightarrow> real option \<Rightarrow> bar option \<times> real option" where
  "bucket_step fl bySec ts prevClose =
     (case bySec ts of
        Some r \<Rightarrow>
          let openAdj = (case prevClose of Some p \<Rightarrow> p | None \<Rightarrow> open_v r);
              highAdj = max (high r) openAdj;
              lowAdj = min (low r) openAdj;
              base = \<lparr>ts_sec = ts, open_v = openAdj, high = highAdj, low = lowAdj,
                      close = close r, volume = volume r, trades = trades r\<rparr>
          in (Some base, Some (close base))
      | None \<Rightarrow>
          if fl \<noteq> FillNone then
            (if fl = FillPrev \<and> prevClose \<noteq> None then
               (Some \<lparr>ts_sec = ts, open_v = the prevClose, high = the prevClose,
                      low = the prevClose, close = the prevClose, volume = 0, trades = 0\<rparr>,
                prevClose)
             else if fl = FillZero then
               (Some \<lparr>ts_sec = ts, open_v = 0, high = 0, low = 0, close = 0,
                      volume = 0, trades = 0\<rparr>, Some 0)
             else (None, prevClose))
          else (None, prevClose))"

text \<open>
  \<^verbatim>\<open>for (let ts = start; ts <= end; ts += stepSec)\<close>.  The step comes from
  \<^verbatim>\<open>tfToSec\<close>, a table of positive constants or a product of a decimal number and a positive
  constant, so it is never negative; for a step of 0 the bounds are \<^verbatim>\<open>NaN\<close> and the body
  never runs.
\<close>

function ohlcv_loop ::
  "int \<Rightarrow> int \<Rightarrow> int \<Rightarrow> fill \<Rightarrow> (int \<rightharpoonup> bar) \<Rightarrow> real option \<Rightarrow> bar list" where
  "ohlcv_loop ts end_ts stepSec fl bySec prevClose =
     (if ts \<le> end_ts \<and> 0 < stepSec then
        (case bucket_step fl bySec ts prevClose of
           (emitted, prevClose') \<Rightarrow>
             (case emitted of Some b \<Rightarrow> [b] | None \<Rightarrow> [])
               @ ohlcv_loop (ts + stepSec) end_ts stepSec fl bySec prevClose')
      else [])"
  by pat_completeness auto
termination
  by (relation "measure (\<lambda>(ts, end_ts, stepSec, fl, bySec, prevClose). nat (end_ts - ts + 1))")
     auto

declare ohlcv_loop.simps [simp del]

text \<open>
  The series \<^verbatim>\<open>out\<close> before inversion and unit scaling, on the path where a pool was found:
  alignment of both endpoints, the seed, the loop.  \<open>fromMs\<close> and \<open>toMs\<close> are the epoch
  milliseconds of \<^verbatim>\<open>fromIso\<close> and \<^verbatim>\<open>toIso\<close>, \<open>seedPrevClose\<close> is the close of the last
  source bar before \<^verbatim>\<open>fromIso\<close> (if any), and \<open>bySec\<close> is the map built from the rows of the
  aggregation query, keyed by bucket start.
\<close>

definition ohlcv_out ::
  "int \<Rightarrow> int \<Rightarrow> int \<Rightarrow> fill \<Rightarrow> real option \<Rightarrow> (int \<rightharpoonup> bar) \<Rightarrow> bar list" where
  "ohlcv_out fromMs toMs stepSec fl seedPrevClose bySec =
     ohlcv_loop (alignSec fromMs stepSec) (alignSec toMs stepSec) stepSec fl bySec
       (initPrevClose fl seedPrevClose)"

text \<open>
  The inversion applied by \<^verbatim>\<open>ohlcvAdvanced\<close> when the dominant side and the view are both
  \<^verbatim>\<open>quote\<close>.
\<close>

definition invert :: "real \<Rightarrow> real" where
  "invert v = (if v > 0 then 1 / v else 0)"

definition invert_bar :: "bar \<Rightarrow> bar" where
  "invert_bar b =
     b\<lparr>open_v := invert (open_v b), close := invert (close b),
       high := invert (low b), low := invert (high b)\<rparr>"

section \<open>Token resolution\<close>





















text \<open>
  \<^verbatim>\<open>isUzigToken\<close> (identical in \<^verbatim>\<open>TokensService\<close> and \<^verbatim>\<open>TradesService\<close>).  The argument is a
  string or an object with optional \<^verbatim>\<open>denom\<close> and \<^verbatim>\<open>symbol\<close>; \<open>truthy\<close> is the truthiness of
  a string that may be null: present and not empty.
\<close>

datatype tok_arg = TokString string | TokObject "string option" "string option"

definition truthy :: "string option \<Rightarrow> bool" where
  "truthy s = (case s of Some v \<Rightarrow> v \<noteq> [] | None \<Rightarrow> False)"

definition isUzigToken :: "tok_arg \<Rightarrow> bool" where
  "isUzigToken tok =
     (let raw = (case tok of
                   TokString s \<Rightarrow> s
                 | TokObject d s \<Rightarrow>
                     if truthy d then the d else if truthy s then the s else []);
          v = toLowerCase raw
      in v = ''uzig'' \<or> v = ''zig'')"

section \<open>Trade shaping and classification\<close>

text \<open>
  The columns of a joined trade row that \<^verbatim>\<open>TradesService.shapeRow\<close> reads for the value and
  the native leg of a trade, and the fields of the shaped trade that the classification reads.
\<close>

record trade_row =
  fx_zig_usd :: "real option"
  offer_amount_base :: "real option"
  offer_asset_denom :: string
  offer_exp :: "int option"
  ask_amount_base :: "real option"
  ask_asset_denom :: string
  ask_exp :: "int option"
  return_amount_base :: "real option"
  qexp :: "int option"
  is_uzig_quote :: bool
  direction :: string
  pq_price_in_zig :: "real option"

record shaped_trade =
  valueNative :: "real option"
  zigLegAmount :: "real option"
  zig_usd_at_trade :: "real option"

text \<open>\<^verbatim>\<open>scale(base, exp, fallback)\<close>.\<close>

definition scale :: "real option \<Rightarrow> int option \<Rightarrow> int \<Rightarrow> real option" where
  "scale base exp' fallback =
     (case base of
        None \<Rightarrow> None
      | Some b \<Rightarrow> Some (b / 10 powi (case exp' of None \<Rightarrow> fallback | Some e \<Rightarrow> e)))"

text \<open>\<^verbatim>\<open>x ?? 6\<close> on a nullable exponent.\<close>

definition or6 :: "int option \<Rightarrow> int option" where
  "or6 e = (case e of None \<Rightarrow> Some 6 | Some x \<Rightarrow> Some x)"

definition shapeRow :: "trade_row \<Rightarrow> real \<Rightarrow> shaped_trade" where
  "shapeRow r zigUsd =
     (let fx = (case fx_zig_usd r of Some f \<Rightarrow> f | None \<Rightarrow> zigUsd);
          offerScaled = scale (offer_amount_base r)
                          (if offer_asset_denom r = ''uzig'' then Some 6 else or6 (offer_exp r)) 6;
          askScaled = scale (ask_amount_base r)
                          (if ask_asset_denom r = ''uzig'' then Some 6 else or6 (ask_exp r)) 6;
          quoteLeg = (if direction r = ''buy''
                      then scale (offer_amount_base r) (or6 (qexp r)) 6
                      else scale (return_amount_base r) (or6 (qexp r)) 6);
          valueZig = (if is_uzig_quote r then quoteLeg
                      else (case pq_price_in_zig r of
                              Some pq \<Rightarrow> (case quoteLeg of Some rawQuote \<Rightarrow> Some (rawQuote * pq)
                                                          | None \<Rightarrow> None)
                            | None \<Rightarrow> None));
          zigLeg = (if offer_asset_denom r = ''uzig'' \<and> offerScaled \<noteq> None then offerScaled
                    else if ask_asset_denom r = ''uzig'' \<and> askScaled \<noteq> None then askScaled
                    else None)
      in \<lparr>valueNative = valueZig, zigLegAmount = zigLeg, zig_usd_at_trade = Some fx\<rparr>)"

datatype worth_unit = Usd | Zig

datatype trade_class = Shrimp | Shark | Whale

definition worthForClass :: "shaped_trade \<Rightarrow> worth_unit \<Rightarrow> real \<Rightarrow> real option" where
  "worthForClass item unit zigUsd =
     (let zigBasis = (if zigLegAmount item \<noteq> None then zigLegAmount item else valueNative item)
      in case zigBasis of
           None \<Rightarrow> None
         | Some basis \<Rightarrow>
             let fx = (case zig_usd_at_trade item of Some f \<Rightarrow> f | None \<Rightarrow> zigUsd)
             in Some (if unit = Usd then basis * fx else basis))"

definition classifyByThreshold :: "real \<Rightarrow> trade_class" where
  "classifyByThreshold x = (if x < 1000 then Shrimp else if x \<le> 10000 then Shark else Whale)"

text \<open>
  \<^verbatim>\<open>const w = this.worthForClass(s, unit, zigUsd); s.class = w != null ?
  this.classifyByThreshold(w) : null\<close>, as every listing endpoint does.
\<close>

definition class_of :: "shaped_trade \<Rightarrow> worth_unit \<Rightarrow> real \<Rightarrow> trade_class option" where
  "class_of s unit zigUsd =
     (case worthForClass s unit zigUsd of Some w \<Rightarrow> Some (classifyByThreshold w) | None \<Rightarrow> None)"

section \<open>Price change per bucket\<close>

text \<open>
  The query of \<^verbatim>\<open>changePctForMinutes\<close> and \<^verbatim>\<open>zigChangeFromUsdcPool\<close> cross-joins the latest
  close with the latest close at or before the window start, so it returns no row or one row
  \<open>(last_close, prev_close)\<close>.  \<open>number_or_null\<close> is \<^verbatim>\<open>r.rows[0]?.c != null ? Number(...) : null\<close>
  and \<open>falsy\<close> is \<^verbatim>\<open>!x\<close> on a number that may be null.
\<close>

type_synonym close_row = "real option \<times> real option"

definition last_close :: "close_row list \<Rightarrow> real option" where
  "last_close rows = (case rows of [] \<Rightarrow> None | r # rs \<Rightarrow> fst r)"

definition prev_close :: "close_row list \<Rightarrow> real option" where
  "prev_close rows = (case rows of [] \<Rightarrow> None | r # rs \<Rightarrow> snd r)"

definition falsy :: "real option \<Rightarrow> bool" where
  "falsy x = (case x of None \<Rightarrow> True | Some v \<Rightarrow> v = 0)"

definition changePctForMinutes :: "close_row list \<Rightarrow> bool \<Rightarrow> real option" where
  "changePctForMinutes rows do_invert =
     (let lastRaw = last_close rows;
          prevRaw = prev_close rows
      in if falsy lastRaw \<or> falsy prevRaw then None
         else
           let last = (if do_invert then 1 / the lastRaw else the lastRaw);
               prev = (if do_invert then 1 / the prevRaw else the prevRaw)
           in if \<not> Number_isFinite last \<or> \<not> Number_isFinite prev \<or> prev = 0 then None
              else Some (((last - prev) / prev) * 100))"

definition zigChangeFromUsdcPool :: "close_row list \<Rightarrow> real option" where
  "zigChangeFromUsdcPool rows =
     (let last = last_close rows;
          prev = prev_close rows
      in if falsy last \<or> falsy prev then None
         else
           let nowInv = 1 / the last;
               prevInv = 1 / the prev
           in Some (((nowInv - prevInv) / prevInv) * 100))"

text \<open>An aggregated source bar used in the examples below.\<close>

definition bar_example :: bar where
  "bar_example = \<lparr>ts_sec = 0, open_v = 1, high = 3, low = 1, close = 2, volume = 10, trades = 4\<rparr>"




text \<open>A joined trade row used in the examples below: a buy paying 2500 ZIG.\<close>

definition row_example :: trade_row where
  "row_example =
     \<lparr>fx_zig_usd = Some (1 / 10), offer_amount_base = Some 2500000000,
      offer_asset_denom = ''uzig'', offer_exp = None, ask_amount_base = None,
      ask_asset_denom = ''ibc/ABC'', ask_exp = Some 8, return_amount_base = Some 700000000,
      qexp = Some 6, is_uzig_quote = True, direction = ''buy'', pq_price_in_zig = None\<rparr>"

section \<open>Results\<close>

subsection \<open>Binary64 rounding\<close>

lemma binade_from_eq:
  assumes "e = int m - 1022" "m \<le> n" "m = 0 \<or> 2 powi e \<le> x" "x < 2 powi (e + 1)"
  shows "binade_from n x = e"
  using assms(2)
proof (induction n)
  case 0
  then show ?case using assms(1) by simp
next
  case (Suc k)
  show ?case
  proof (cases "m = Suc k")
    case True
    then have "2 powi (int (Suc k) - 1022) \<le> x" using assms(1,3) by simp
    then show ?thesis using True assms(1) by simp
  next
    case False
    with Suc.prems have mk: "m \<le> k" by simp
    have "e + 1 \<le> int (Suc k) - 1022" using mk assms(1) by simp
    then have "(2::real) powi (e + 1) \<le> 2 powi (int (Suc k) - 1022)"
      by (intro power_int_increasing) simp_all
    with assms(4) have "\<not> 2 powi (int (Suc k) - 1022) \<le> x" by simp
    then show ?thesis using Suc.IH[OF mk] by simp
  qed
qed

lemma binade_eq:
  assumes "- 1022 \<le> e" "e \<le> 1023" "e = - 1022 \<or> 2 powi e \<le> \<bar>x\<bar>" "\<bar>x\<bar> < 2 powi (e + 1)"
  shows "binade x = e"
  unfolding binade_def
  by (rule binade_from_eq[where m = "nat (e + 1022)"]) (use assms in auto)

text \<open>Rounding a value whose binade is known.\<close>

lemma round64_eval:
  assumes "- 1022 \<le> e" "e \<le> 1023" "e = - 1022 \<or> 2 powi e \<le> \<bar>x\<bar>" "\<bar>x\<bar> < 2 powi (e + 1)"
    and "\<bar>x\<bar> < 2 ^ 1024 - 2 ^ 970"
    and "round_even (x / 2 powi (e - 52)) = m"
  shows "round64 x = Fin (of_int m * 2 powi (e - 52))"
  using assms(5,6) binade_eq[OF assms(1-4)] by (simp add: round64_def rn_def)

lemma binade_from_props:
  "- 1022 \<le> binade_from n x \<and> binade_from n x \<le> int n - 1022
   \<and> (binade_from n x = - 1022 \<or> 2 powi (binade_from n x) \<le> x)
   \<and> (x < 2 powi (int n - 1021) \<longrightarrow> x < 2 powi (binade_from n x + 1))"
proof (induction n)
  case 0
  show ?case by simp
next
  case (Suc k)
  show ?case
  proof (cases "2 powi (int (Suc k) - 1022) \<le> x")
    case True
    have "int (Suc k) - 1021 = int (Suc k) - 1022 + 1" by simp
    then show ?thesis using True by simp
  next
    case False
    then have b: "binade_from (Suc k) x = binade_from k x" by simp
    have e: "int (Suc k) - 1022 = int k - 1021" by simp
    from False have "x < 2 powi (int k - 1021)" by (simp add: e)
    with Suc.IH show ?thesis unfolding b by auto
  qed
qed

lemma binade_range: "- 1022 \<le> binade x" "binade x \<le> 1023"
  using binade_from_props[of 2045 "\<bar>x\<bar>"] by (simp_all add: binade_def)

lemma binade_lower:
  assumes "2 powi (- 1022) \<le> \<bar>x\<bar>"
  shows "2 powi (binade x) \<le> \<bar>x\<bar>"
  using binade_from_props[of 2045 "\<bar>x\<bar>"] assms unfolding binade_def by auto

lemma binade_subnormal:
  assumes "\<bar>x\<bar> < 2 powi (- 1022)"
  shows "binade x = - 1022"
proof -
  have "\<bar>x\<bar> < 2 powi (- 1022 + 1)"
  proof -
    have "(2::real) powi (- 1022) \<le> 2 powi (- 1022 + 1)"
      by (intro power_int_increasing) simp_all
    with assms show ?thesis by simp
  qed
  then show ?thesis by (intro binade_eq) simp_all
qed

lemma round_even_error: "\<bar>of_int (round_even r) - r\<bar> \<le> 1 / 2"
proof -
  have "of_int \<lfloor>r\<rfloor> \<le> r" "r < of_int \<lfloor>r\<rfloor> + 1" by linarith+
  then show ?thesis by (auto simp: round_even_def Let_def)
qed

lemma round_even_nonneg: "0 \<le> r \<Longrightarrow> 0 \<le> round_even r"
proof -
  assume "0 \<le> r"
  then have "0 \<le> \<lfloor>r\<rfloor>" by simp
  then show ?thesis by (auto simp: round_even_def Let_def)
qed

lemma rn_error: "\<bar>rn x - x\<bar> \<le> 2 powi (binade x) / 2 ^ 53"
proof -
  let ?q = "(2::real) powi (binade x - 52)"
  have q: "0 < ?q" by simp
  have x: "x = (x / ?q) * ?q" using q by simp
  have "rn x - x = (of_int (round_even (x / ?q)) - x / ?q) * ?q"
    by (subst (2) x) (simp add: rn_def algebra_simps)
  then have "\<bar>rn x - x\<bar> = \<bar>of_int (round_even (x / ?q)) - x / ?q\<bar> * ?q"
    using q by (simp add: abs_mult)
  also have "\<dots> \<le> (1 / 2) * ?q"
    using round_even_error[of "x / ?q"] q by (intro mult_right_mono) simp_all
  also have "\<dots> = 2 powi (binade x) / 2 ^ 53"
    by (simp add: power_int_diff)
  finally show ?thesis .
qed

lemma rn_nonneg: "0 \<le> x \<Longrightarrow> 0 \<le> rn x"
  by (simp add: rn_def round_even_nonneg)

lemma no_overflow: "\<bar>x\<bar> \<le> 2 ^ 1023 \<Longrightarrow> \<not> (2 ^ 1024 - 2 ^ 970 \<le> \<bar>x::real\<bar>)"
  by simp

text \<open>
  The error of one rounding: relative \<open>2^-53\<close> in the normal range, absolute \<open>2^-1075\<close>
  below it.
\<close>

lemma fl_abs:
  assumes "\<bar>x\<bar> \<le> 2 ^ 1023"
  shows "\<exists>y. round64 x = Fin y \<and> \<bar>y - x\<bar> \<le> \<bar>x\<bar> * u64 + 1 / 2 ^ 1075 \<and> (0 \<le> x \<longrightarrow> 0 \<le> y)"
proof -
  have r: "round64 x = Fin (rn x)" using no_overflow[OF assms] by (simp add: round64_def)
  have "\<bar>rn x - x\<bar> \<le> \<bar>x\<bar> * u64 + 1 / 2 ^ 1075"
  proof (cases "2 powi (- 1022) \<le> \<bar>x\<bar>")
    case True
    have "\<bar>rn x - x\<bar> \<le> 2 powi (binade x) / 2 ^ 53" by (rule rn_error)
    also have "\<dots> \<le> \<bar>x\<bar> / 2 ^ 53" using binade_lower[OF True] by (simp add: divide_right_mono)
    finally show ?thesis by (simp add: u64_def)
  next
    case False
    then have b: "binade x = - 1022" by (intro binade_subnormal) simp
    have "\<bar>rn x - x\<bar> \<le> 2 powi (binade x) / 2 ^ 53" by (rule rn_error)
    also have "\<dots> = 1 / 2 ^ 1075" by (simp add: b power_int_minus flip: power_add)
    finally have "\<bar>rn x - x\<bar> \<le> 1 / 2 ^ 1075" .
    moreover have "0 \<le> \<bar>x\<bar> * u64" by (simp add: u64_def)
    ultimately show ?thesis by linarith
  qed
  with r rn_nonneg[of x] show ?thesis by auto
qed

lemma fl_pos:
  assumes "2 powi (- 1022) \<le> x" "x \<le> 2 ^ 1023"
  shows "\<exists>y. round64 x = Fin y \<and> x * (1 - u64) \<le> y \<and> y \<le> x * (1 + u64)"
proof -
  have p: "0 < x"
  proof -
    have "(0::real) < 2 powi (- 1022)" by simp
    with assms(1) show ?thesis by linarith
  qed
  then have a: "\<bar>x\<bar> = x" by simp
  have r: "round64 x = Fin (rn x)" using no_overflow[of x] assms(2) a by (simp add: round64_def)
  have "\<bar>rn x - x\<bar> \<le> 2 powi (binade x) / 2 ^ 53" by (rule rn_error)
  also have "\<dots> \<le> x / 2 ^ 53"
    using binade_lower[of x] assms(1) a by (simp add: divide_right_mono)
  finally have "\<bar>rn x - x\<bar> \<le> x * u64" by (simp add: u64_def)
  then have "x * (1 - u64) \<le> rn x \<and> rn x \<le> x * (1 + u64)"
    by (simp add: algebra_simps abs_le_iff)
  with r show ?thesis by blast
qed

lemma round_even_down:
  assumes "of_int f \<le> r" "r < of_int f + 1 / 2"
  shows "round_even r = f"
proof -
  have "\<lfloor>r\<rfloor> = f" using assms by (intro floor_unique) simp_all
  then show ?thesis using assms by (simp add: round_even_def Let_def)
qed

text \<open>Values just above \<open>-1\<close> round to \<open>-1\<close>.\<close>

lemma round64_minus_one:
  assumes "- 1 \<le> x" "x \<le> - 1 + 1 / 2 ^ 55"
  shows "round64 x = Fin (- 1)"
proof (cases "x = - 1")
  case True
  show ?thesis unfolding True
    using round64_eval[of 0 "- 1" "- (2 ^ 52)"]
    by (simp add: round_even_def power_int_minus)
next
  case False
  with assms have x: "- 1 < x" "x \<le> - 1 + 1 / 2 ^ 55" by simp_all
  have ax: "\<bar>x\<bar> = - x" using x by simp
  define r where "r = x / 2 powi (- 1 - 52)"
  have r: "r = x * 2 ^ 53" by (simp add: r_def power_int_minus)
  have lo: "- (2 ^ 53) < r" using x(1) by (simp add: r)
  have hi: "r \<le> - (2 ^ 53) + 1 / 4"
  proof -
    have "x * 2 ^ 53 \<le> (- 1 + 1 / 2 ^ 55) * 2 ^ 53" using x(2) by (intro mult_right_mono) simp_all
    also have "\<dots> = - (2 ^ 53) + 1 / 4" by simp
    finally show ?thesis by (simp add: r)
  qed
  have "round_even r = - (2 ^ 53)"
  proof (rule round_even_down)
    show "of_int (- (2 ^ 53)) \<le> r" using lo by simp
    show "r < of_int (- (2 ^ 53)) + 1 / 2" using hi by simp
  qed
  then have re: "round_even (x / 2 powi (- 1 - 52)) = - (2 ^ 53)" by (simp only: r_def)
  have "round64 x = Fin (of_int (- (2 ^ 53)) * 2 powi (- 1 - 52))"
  proof (rule round64_eval)
    show "- 1 = - 1022 \<or> 2 powi (- 1) \<le> \<bar>x\<bar>" using x by (simp add: ax power_int_minus)
    show "\<bar>x\<bar> < 2 powi (- 1 + 1)" using x by (simp add: ax)
    show "\<bar>x\<bar> < 2 ^ 1024 - 2 ^ 970" using x by (simp add: ax)
    show "round_even (x / 2 powi (- 1 - 52)) = - (2 ^ 53)" by (rule re)
  qed simp_all
  then show ?thesis by (simp add: power_int_minus)
qed

subsection \<open>Accumulated rounding error\<close>

lemma u64_bounds: "0 < u64" "u64 < 1" "0 < 1 - u64" "1 - u64 \<le> 1" "1 / 2 \<le> 1 - u64"
  by (simp_all add: u64_def)

lemma pow_u64_pos: "0 < (1 - u64) ^ n"
  using u64_bounds(3) by simp

lemma pow_u64_le1: "(1 - u64) ^ n \<le> 1"
  using u64_bounds by (intro power_le_one) simp_all

lemma close_to_pos: "close_to n x y \<Longrightarrow> 0 < y"
proof -
  assume c: "close_to n x y"
  then have "0 < x * (1 - u64) ^ n" using pow_u64_pos[of n] by (simp add: close_to_def)
  with c show ?thesis by (simp add: close_to_def)
qed

lemma close_to_refl: "0 < x \<Longrightarrow> close_to 0 x x"
  by (simp add: close_to_def)

lemma close_to_mono:
  assumes "close_to n x y" "n \<le> m"
  shows "close_to m x y"
proof -
  have p: "(1 - u64) ^ m \<le> (1 - u64) ^ n"
    using assms(2) u64_bounds by (intro power_decreasing) simp_all
  have x: "0 < x" and y: "0 < y"
    using assms(1) close_to_pos[OF assms(1)] by (simp_all add: close_to_def)
  have "x * (1 - u64) ^ m \<le> x * (1 - u64) ^ n" using p x by (intro mult_left_mono) simp_all
  also have "\<dots> \<le> y" using assms(1) by (simp add: close_to_def)
  finally have a: "x * (1 - u64) ^ m \<le> y" .
  have "y * (1 - u64) ^ m \<le> y * (1 - u64) ^ n" using p y by (intro mult_left_mono) simp_all
  also have "\<dots> \<le> x" using assms(1) by (simp add: close_to_def)
  finally have b: "y * (1 - u64) ^ m \<le> x" .
  from x a b show ?thesis by (simp add: close_to_def)
qed

lemma close_to_trans:
  assumes "close_to n x y" "close_to m y z"
  shows "close_to (n + m) x z"
proof -
  have x: "0 < x" using assms(1) by (simp add: close_to_def)
  have "x * (1 - u64) ^ (n + m) = (x * (1 - u64) ^ n) * (1 - u64) ^ m" by (simp add: power_add)
  also have "\<dots> \<le> y * (1 - u64) ^ m"
    using assms(1) pow_u64_pos[of m] by (simp add: close_to_def)
  also have "\<dots> \<le> z" using assms(2) by (simp add: close_to_def)
  finally have a: "x * (1 - u64) ^ (n + m) \<le> z" .
  have "z * (1 - u64) ^ (n + m) = (z * (1 - u64) ^ m) * (1 - u64) ^ n"
    by (simp add: power_add)
  also have "\<dots> \<le> y * (1 - u64) ^ n"
    using assms(2) pow_u64_pos[of n] by (simp add: close_to_def)
  also have "\<dots> \<le> x" using assms(1) by (simp add: close_to_def)
  finally have b: "z * (1 - u64) ^ (n + m) \<le> x" .
  from x a b show ?thesis by (simp add: close_to_def)
qed

lemma close_to_mult:
  assumes "close_to n x y" "close_to m x' y'"
  shows "close_to (n + m) (x * x') (y * y')"
proof -
  have x: "0 < x" "0 < x'" using assms by (simp_all add: close_to_def)
  have y: "0 < y" "0 < y'" using assms by (simp_all add: close_to_pos)
  have l1: "x * (1 - u64) ^ n \<le> y" and l2: "x' * (1 - u64) ^ m \<le> y'"
    and r1: "y * (1 - u64) ^ n \<le> x" and r2: "y' * (1 - u64) ^ m \<le> x'"
    using assms by (simp_all add: close_to_def)
  have n1: "0 \<le> x' * (1 - u64) ^ m" using x pow_u64_pos[of m] by simp
  have n2: "0 \<le> y' * (1 - u64) ^ m" using y pow_u64_pos[of m] by simp
  have "(x * x') * (1 - u64) ^ (n + m) = (x * (1 - u64) ^ n) * (x' * (1 - u64) ^ m)"
    by (simp add: power_add)
  also have "\<dots> \<le> y * y'" using l1 l2 _ n1 by (rule mult_mono) (use y in simp)
  finally have a: "(x * x') * (1 - u64) ^ (n + m) \<le> y * y'" .
  have "(y * y') * (1 - u64) ^ (n + m) = (y * (1 - u64) ^ n) * (y' * (1 - u64) ^ m)"
    by (simp add: power_add)
  also have "\<dots> \<le> x * x'" using r1 r2 _ n2 by (rule mult_mono) (use x in simp)
  finally have b: "(y * y') * (1 - u64) ^ (n + m) \<le> x * x'" .
  from x a b show ?thesis by (simp add: close_to_def)
qed

lemma close_to_inverse:
  assumes "close_to n x y"
  shows "close_to n (1 / x) (1 / y)"
proof -
  have x: "0 < x" and y: "0 < y" using assms close_to_pos[OF assms] by (simp_all add: close_to_def)
  have a: "(1 / x) * (1 - u64) ^ n \<le> 1 / y"
  proof -
    have "y * (1 - u64) ^ n \<le> x" using assms by (simp add: close_to_def)
    then show ?thesis using x y by (simp add: field_simps)
  qed
  have b: "(1 / y) * (1 - u64) ^ n \<le> 1 / x"
  proof -
    have "x * (1 - u64) ^ n \<le> y" using assms by (simp add: close_to_def)
    then show ?thesis using x y by (simp add: field_simps)
  qed
  from x a b show ?thesis by (simp add: close_to_def)
qed

lemma close_to_div:
  assumes "close_to n x y" "close_to m x' y'"
  shows "close_to (n + m) (x / x') (y / y')"
  using close_to_mult[OF assms(1) close_to_inverse[OF assms(2)]] by simp

lemma close_to_add:
  assumes "close_to n x y" "close_to n x' y'"
  shows "close_to n (x + x') (y + y')"
  using assms by (auto simp: close_to_def algebra_simps intro: add_mono)

lemma close_to_crude:
  assumes "close_to n x y"
  shows "x / 2 ^ n \<le> y" "y \<le> x * 2 ^ n"
proof -
  have x: "0 < x" and y: "0 < y" using assms close_to_pos[OF assms] by (simp_all add: close_to_def)
  have h: "(1 / 2) ^ n \<le> (1 - u64) ^ n" using u64_bounds by (intro power_mono) simp_all
  have "x * (1 / 2) ^ n \<le> x * (1 - u64) ^ n" using h x by simp
  also have "\<dots> \<le> y" using assms by (simp add: close_to_def)
  finally show "x / 2 ^ n \<le> y" by (simp add: power_divide)
  have "y * (1 / 2) ^ n \<le> y * (1 - u64) ^ n" using h y by simp
  also have "\<dots> \<le> x" using assms by (simp add: close_to_def)
  finally show "y \<le> x * 2 ^ n" by (simp add: power_divide field_simps)
qed

lemma pow_u64_bernoulli: "1 - real n * u64 \<le> (1 - u64) ^ n"
  using Bernoulli_inequality[of "- u64" n] u64_bounds by simp

text \<open>A value within \<open>n\<close> roundings of \<open>x\<close> differs from it by a relative \<open>(n + 1) * 2^-53\<close>.\<close>

lemma close_to_bound:
  assumes "close_to n x y" "n \<le> 1000"
  shows "x * (1 - real n * u64) \<le> y" "y \<le> x * (1 + real (Suc n) * u64)"
proof -
  have x: "0 < x" and y: "0 < y" using assms close_to_pos[OF assms(1)] by (simp_all add: close_to_def)
  have nu: "real n * u64 \<le> 1000 / 2 ^ 53" using assms(2) by (simp add: u64_def)
  have "x * (1 - real n * u64) \<le> x * (1 - u64) ^ n"
    using pow_u64_bernoulli[of n] x by simp
  also have "\<dots> \<le> y" using assms(1) by (simp add: close_to_def)
  finally show "x * (1 - real n * u64) \<le> y" .
  have "y * (1 - real n * u64) \<le> y * (1 - u64) ^ n"
    using pow_u64_bernoulli[of n] y by simp
  also have "\<dots> \<le> x" using assms(1) by (simp add: close_to_def)
  finally have yx: "y * (1 - real n * u64) \<le> x" .
  have "1 \<le> (1 - real n * u64) * (1 + real (Suc n) * u64)"
  proof -
    have "(1 - real n * u64) * (1 + real (Suc n) * u64)
            = 1 + u64 * (1 - real n * (real (Suc n) * u64))"
      by (simp add: algebra_simps)
    moreover have "real n * (real (Suc n) * u64) \<le> 1"
    proof -
      have "real n * (real (Suc n) * u64) \<le> 1000 * (1001 * u64)"
        using assms(2) u64_bounds by (intro mult_mono) simp_all
      also have "\<dots> \<le> 1" by (simp add: u64_def)
      finally show ?thesis .
    qed
    ultimately show ?thesis using u64_bounds(1) by simp
  qed
  then have "y \<le> y * ((1 - real n * u64) * (1 + real (Suc n) * u64))"
    using y by simp
  also have "\<dots> = (y * (1 - real n * u64)) * (1 + real (Suc n) * u64)" by simp
  also have "\<dots> \<le> x * (1 + real (Suc n) * u64)"
    using yx u64_bounds by (intro mult_right_mono) simp_all
  finally show "y \<le> x * (1 + real (Suc n) * u64)" .
qed

lemma fl_close:
  assumes "2 powi (- 1022) \<le> x" "x \<le> 2 ^ 1023"
  shows "\<exists>y. round64 x = Fin y \<and> close_to 1 x y"
proof -
  from fl_pos[OF assms] obtain y where
    y: "round64 x = Fin y" "x * (1 - u64) \<le> y" "y \<le> x * (1 + u64)" by blast
  have p: "0 < x"
  proof -
    have "(0::real) < 2 powi (- 1022)" by simp
    with assms(1) show ?thesis by linarith
  qed
  have "y * (1 - u64) \<le> (x * (1 + u64)) * (1 - u64)"
    using y(3) u64_bounds by (intro mult_right_mono) simp_all
  also have "\<dots> = x * (1 - u64 * u64)" by (simp add: algebra_simps)
  also have "\<dots> \<le> x" using p u64_bounds by simp
  finally have "y * (1 - u64) \<le> x" .
  with y p show ?thesis by (auto simp: close_to_def)
qed

text \<open>
  Rounding a value \<open>v\<close> that is within \<open>n\<close> roundings of an exact value of moderate size.
\<close>

lemma fl_close_step:
  assumes "close_to n e v" "n \<le> 20" "1 / 2 ^ 1000 \<le> e" "e \<le> 2 ^ 1000"
  shows "\<exists>y. round64 v = Fin y \<and> close_to (Suc n) e y"
proof -
  have e: "0 < e" using assms(1) by (simp add: close_to_def)
  have p: "(2::real) ^ n \<le> 2 ^ 20" using assms(2) by (intro power_increasing) simp_all
  have "1 / 2 ^ 1020 = (1 / 2 ^ 1000) / (2::real) ^ 20" by simp
  also have "\<dots> \<le> e / 2 ^ 20" using assms(3) by (intro divide_right_mono) simp_all
  also have "\<dots> \<le> e / 2 ^ n" using p e by (intro divide_left_mono) simp_all
  also have "\<dots> \<le> v" by (rule close_to_crude(1)[OF assms(1)])
  finally have lo: "1 / 2 ^ 1020 \<le> v" .
  have "v \<le> e * 2 ^ n" by (rule close_to_crude(2)[OF assms(1)])
  also have "\<dots> \<le> 2 ^ 1000 * 2 ^ 20" using assms(4) p e by (intro mult_mono) simp_all
  finally have hi: "v \<le> 2 ^ 1020" by simp
  have "2 powi (- 1022) \<le> v"
  proof -
    have "(2::real) powi (- 1022) \<le> 1 / 2 ^ 1020" by (simp add: power_int_minus)
    with lo show ?thesis by linarith
  qed
  moreover have "v \<le> 2 ^ 1023" using hi by simp
  ultimately obtain y where y: "round64 v = Fin y" "close_to 1 v y" using fl_close by blast
  have "close_to (n + 1) e y" using assms(1) y(2) by (rule close_to_trans)
  with y(1) show ?thesis by auto
qed

subsection \<open>Swap simulation\<close>

lemma simulateXYK_zero:
  assumes "\<not> (num_gt Rz (Fin 0) \<and> num_gt Rt (Fin 0)) \<or> \<not> num_gt amountIn (Fin 0)"
  shows "simulateXYK fromIsZig amountIn Rz Rt fee = \<lparr>out = Fin 0, price = Fin 0, impact = Fin 0\<rparr>"
  using assms by (auto simp: simulateXYK_def)

lemma out_buy_unfold:
  assumes "0 < rz" "0 < rt" "0 < a"
  shows "out (simulateXYK True (Fin a) (Fin rz) (Fin rt) fee) =
           num_div (num_mul (num_mul (Fin a) (num_sub (Fin 1) fee)) (Fin rt))
             (num_add (Fin rz) (num_mul (Fin a) (num_sub (Fin 1) fee)))"
  using assms by (simp add: simulateXYK_def Let_def)

lemma out_sell_unfold:
  assumes "0 < rz" "0 < rt" "0 < a"
  shows "out (simulateXYK False (Fin a) (Fin rz) (Fin rt) fee) =
           num_div (num_mul (num_mul (Fin a) (num_sub (Fin 1) fee)) (Fin rz))
             (num_add (Fin rt) (num_mul (Fin a) (num_sub (Fin 1) fee)))"
  using assms by (simp add: simulateXYK_def Let_def)

lemma impact_buy_unfold:
  assumes "0 < rz" "0 < rt" "0 < a"
  shows "impact (simulateXYK True (Fin a) (Fin rz) (Fin rt) fee) =
           (if num_gt (num_div (Fin rz) (Fin rt)) (Fin 0)
            then num_sub
                   (num_div
                      (num_div (Fin a)
                         (num_max (out (simulateXYK True (Fin a) (Fin rz) (Fin rt) fee)) lit_1e_18))
                      (num_div (Fin rz) (Fin rt)))
                   (Fin 1)
            else Fin 0)"
  using assms by (simp add: simulateXYK_def Let_def)

lemma mult_range:
  fixes x y :: real
  assumes "l1 \<le> x" "x \<le> h1" "l2 \<le> y" "y \<le> h2" "0 < l1" "0 < l2"
  shows "l1 * l2 \<le> x * y" "x * y \<le> h1 * h2"
proof -
  show "l1 * l2 \<le> x * y" using assms by (intro mult_mono) simp_all
  have "0 \<le> x" "0 \<le> y" using assms by simp_all
  then show "x * y \<le> h1 * h2" using assms by (intro mult_mono) simp_all
qed

lemma div_range:
  fixes x y :: real
  assumes "l1 \<le> x" "x \<le> h1" "l2 \<le> y" "y \<le> h2" "0 < l1" "0 < l2"
  shows "l1 / h2 \<le> x / y" "x / y \<le> h1 / l2"
proof -
  show "l1 / h2 \<le> x / y" using assms by (intro frac_le) simp_all
  have "0 \<le> x" using assms by simp
  then show "x / y \<le> h1 / l2" using assms by (intro frac_le) simp_all
qed

text \<open>The fee-adjusted input \<^verbatim>\<open>xin = amountIn * (1 - fee)\<close>: two roundings.\<close>

lemma xin_close:
  assumes "1 / 2 ^ 300 \<le> a" "a \<le> 2 ^ 300" "0 \<le> f" "f \<le> 1 - 1 / 2 ^ 53"
  shows "\<exists>x. num_mul (Fin a) (num_sub (Fin 1) (Fin f)) = Fin x \<and> close_to 2 (a * (1 - f)) x"
proof -
  have k: "1 / 2 ^ 53 \<le> 1 - f" "1 - f \<le> 1" using assms by simp_all
  have kp: "0 < 1 - f" using k(1) by (simp add: less_le_trans[of 0 "1 / 2 ^ 53"])
  have ap: "0 < a" using assms(1) by (simp add: less_le_trans[of 0 "1 / 2 ^ 300"])
  have "\<exists>y. round64 (1 - f) = Fin y \<and> close_to (Suc 0) (1 - f) y"
  proof (rule fl_close_step)
    show "close_to 0 (1 - f) (1 - f)" using kp by (rule close_to_refl)
    show "1 / 2 ^ 1000 \<le> 1 - f" using k(1) by simp
    show "1 - f \<le> 2 ^ 1000" using k(2) by simp
  qed simp
  then obtain k' where k': "round64 (1 - f) = Fin k'" "close_to 1 (1 - f) k'" by auto
  have s: "num_sub (Fin 1) (Fin f) = Fin k'" using k'(1) by (simp add: num_sub_def)
  have c: "close_to 1 (a * (1 - f)) (a * k')"
    using close_to_mult[OF close_to_refl[OF ap] k'(2)] by simp
  have r: "1 / 2 ^ 300 * (1 / 2 ^ 53) \<le> a * (1 - f)" "a * (1 - f) \<le> 2 ^ 300 * 1"
    using mult_range[OF assms(1,2) k] by simp_all
  have "\<exists>y. round64 (a * k') = Fin y \<and> close_to (Suc 1) (a * (1 - f)) y"
  proof (rule fl_close_step)
    show "close_to 1 (a * (1 - f)) (a * k')" by (rule c)
    show "1 / 2 ^ 1000 \<le> a * (1 - f)" using r(1) by simp
    show "a * (1 - f) \<le> 2 ^ 1000" using r(2) by simp
  qed simp
  then obtain x where x: "round64 (a * k') = Fin x" "close_to 2 (a * (1 - f)) x"
    by (auto simp: numeral_2_eq_2)
  show ?thesis using s x by auto
qed

text \<open>
  The output \<^verbatim>\<open>(xin * Rout) / (Rin + xin)\<close> of either direction: within seven roundings of the
  exact constant-product output.
\<close>

lemma xyk_out_close:
  assumes "1 / 2 ^ 300 \<le> r_in" "r_in \<le> 2 ^ 300" "1 / 2 ^ 300 \<le> r_out" "r_out \<le> 2 ^ 300"
    and "1 / 2 ^ 353 \<le> ak" "ak \<le> 2 ^ 300" "close_to 2 ak x"
  shows "\<exists>v. num_div (num_mul (Fin x) (Fin r_out)) (num_add (Fin r_in) (Fin x)) = Fin v
            \<and> close_to 7 (ak * r_out / (r_in + ak)) v"
proof -
  have rip: "0 < r_in" using assms(1) by (simp add: less_le_trans[of 0 "1 / 2 ^ 300"])
  have rop: "0 < r_out" using assms(3) by (simp add: less_le_trans[of 0 "1 / 2 ^ 300"])
  have n0: "close_to 2 (ak * r_out) (x * r_out)"
    using close_to_mult[OF assms(7) close_to_refl[OF rop]] by simp
  have nr: "1 / 2 ^ 353 * (1 / 2 ^ 300) \<le> ak * r_out" "ak * r_out \<le> 2 ^ 300 * 2 ^ 300"
    using mult_range[OF assms(5,6) assms(3,4)] by simp_all
  have "\<exists>y. round64 (x * r_out) = Fin y \<and> close_to (Suc 2) (ak * r_out) y"
  proof (rule fl_close_step)
    show "close_to 2 (ak * r_out) (x * r_out)" by (rule n0)
    show "1 / 2 ^ 1000 \<le> ak * r_out" using nr(1) by simp
    show "ak * r_out \<le> 2 ^ 1000" using nr(2) by simp
  qed simp
  then obtain n where n: "round64 (x * r_out) = Fin n" "close_to 3 (ak * r_out) n" by auto
  have d0: "close_to 2 (r_in + ak) (r_in + x)"
    using close_to_add[OF close_to_mono[OF close_to_refl[OF rip], of 2] assms(7)] by simp
  have dr: "1 / 2 ^ 300 \<le> r_in + ak" "r_in + ak \<le> 2 ^ 300 + 2 ^ 300"
    using assms(1,2,5,6) by simp_all
  have "\<exists>y. round64 (r_in + x) = Fin y \<and> close_to (Suc 2) (r_in + ak) y"
  proof (rule fl_close_step)
    show "close_to 2 (r_in + ak) (r_in + x)" by (rule d0)
    show "1 / 2 ^ 1000 \<le> r_in + ak" using dr(1) by simp
    show "r_in + ak \<le> 2 ^ 1000" using dr(2) by simp
  qed simp
  then obtain d where d: "round64 (r_in + x) = Fin d" "close_to 3 (r_in + ak) d" by auto
  have dp: "0 < d" using d(2) by (rule close_to_pos)
  have q0: "close_to 6 (ak * r_out / (r_in + ak)) (n / d)"
    using close_to_div[OF n(2) d(2)] by simp
  have qr: "1 / 2 ^ 353 * (1 / 2 ^ 300) / (2 ^ 300 + 2 ^ 300) \<le> ak * r_out / (r_in + ak)"
           "ak * r_out / (r_in + ak) \<le> 2 ^ 300 * 2 ^ 300 / (1 / 2 ^ 300)"
    using div_range[OF nr dr] by simp_all
  have "\<exists>y. round64 (n / d) = Fin y \<and> close_to (Suc 6) (ak * r_out / (r_in + ak)) y"
  proof (rule fl_close_step)
    show "close_to 6 (ak * r_out / (r_in + ak)) (n / d)" by (rule q0)
    show "1 / 2 ^ 1000 \<le> ak * r_out / (r_in + ak)" by (rule order_trans[OF _ qr(1)]) simp
    show "ak * r_out / (r_in + ak) \<le> 2 ^ 1000" by (rule order_trans[OF qr(2)]) simp
  qed simp
  then obtain v where v: "round64 (n / d) = Fin v" "close_to 7 (ak * r_out / (r_in + ak)) v"
    by auto
  show ?thesis using n(1) d(1) dp v by auto
qed

lemma xyk_out_le:
  fixes x R S :: real
  assumes "0 < x" "0 < R" "0 < S"
  shows "(x * R) / (S + x) \<le> R"
proof -
  have "x * R \<le> R * (S + x)" using assms by (simp add: algebra_simps)
  then show ?thesis using assms by (simp add: pos_divide_le_eq)
qed

text \<open>Either direction, on inputs of moderate size: the output is finite, positive and
  exceeds the reserve paid out by at most a relative \<open>2^-50\<close>.\<close>

lemma xyk_out_bound:
  assumes "1 / 2 ^ 300 \<le> a" "a \<le> 2 ^ 300" "0 \<le> f" "f \<le> 1 - 1 / 2 ^ 53"
    and "1 / 2 ^ 300 \<le> r_in" "r_in \<le> 2 ^ 300" "1 / 2 ^ 300 \<le> r_out" "r_out \<le> 2 ^ 300"
  shows "\<exists>v. num_div (num_mul (num_mul (Fin a) (num_sub (Fin 1) (Fin f))) (Fin r_out))
               (num_add (Fin r_in) (num_mul (Fin a) (num_sub (Fin 1) (Fin f)))) = Fin v
            \<and> close_to 7 (a * (1 - f) * r_out / (r_in + a * (1 - f))) v
            \<and> 0 < v \<and> v \<le> r_out * (1 + 1 / 2 ^ 50)"
proof -
  from xin_close[OF assms(1-4)] obtain x where
    x: "num_mul (Fin a) (num_sub (Fin 1) (Fin f)) = Fin x" "close_to 2 (a * (1 - f)) x" by blast
  have k: "1 / 2 ^ 53 \<le> 1 - f" "1 - f \<le> 1" using assms by simp_all
  have r: "1 / 2 ^ 300 * (1 / 2 ^ 53) \<le> a * (1 - f)" "a * (1 - f) \<le> 2 ^ 300 * 1"
    using mult_range[OF assms(1,2) k] by simp_all
  have akp: "0 < a * (1 - f)" using r(1) by (simp add: less_le_trans[of 0 "1 / 2 ^ 353"])
  have rip: "0 < r_in" using assms(5) by (simp add: less_le_trans[of 0 "1 / 2 ^ 300"])
  have rop: "0 < r_out" using assms(7) by (simp add: less_le_trans[of 0 "1 / 2 ^ 300"])
  have "\<exists>v. num_div (num_mul (Fin x) (Fin r_out)) (num_add (Fin r_in) (Fin x)) = Fin v
            \<and> close_to 7 (a * (1 - f) * r_out / (r_in + a * (1 - f))) v"
  proof (rule xyk_out_close[OF assms(5-8)])
    show "1 / 2 ^ 353 \<le> a * (1 - f)" using r(1) by simp
    show "a * (1 - f) \<le> 2 ^ 300" using r(2) by simp
    show "close_to 2 (a * (1 - f)) x" by (rule x(2))
  qed
  then obtain v where v: "num_div (num_mul (Fin x) (Fin r_out)) (num_add (Fin r_in) (Fin x)) = Fin v"
    "close_to 7 (a * (1 - f) * r_out / (r_in + a * (1 - f))) v" by blast
  have vp: "0 < v" using v(2) by (rule close_to_pos)
  have "v \<le> (a * (1 - f) * r_out / (r_in + a * (1 - f))) * (1 + real (Suc 7) * u64)"
    by (rule close_to_bound(2)[OF v(2)]) simp
  also have "\<dots> \<le> r_out * (1 + real (Suc 7) * u64)"
    using xyk_out_le[OF akp rop rip] u64_bounds by (intro mult_right_mono) simp_all
  also have "\<dots> = r_out * (1 + 1 / 2 ^ 50)" by (simp add: u64_def)
  finally have "v \<le> r_out * (1 + 1 / 2 ^ 50)" .
  with v vp show ?thesis unfolding x(1) by blast
qed

text \<open>Some decimal literals and small sums, rounded.\<close>

lemma round64_0: "round64 0 = Fin 0"
  using round64_eval[of "-1022" 0 0] by (simp add: round_even_def)

lemma round64_1: "round64 1 = Fin 1"
  using round64_eval[of 0 1 4503599627370496] by (simp add: round_even_def power_int_minus)

lemma round64_2: "round64 2 = Fin 2"
  using round64_eval[of 1 2 4503599627370496] by (simp add: round_even_def power_int_minus)

lemma round64_3: "round64 3 = Fin 3"
  using round64_eval[of 1 3 6755399441055744] by (simp add: round_even_def power_int_minus)

lemma round64_tenth: "round64 (1 / 10) = Fin (7205759403792794 / 2 ^ 56)"
  using round64_eval[of "-4" "1 / 10" 7205759403792794]
  by (simp add: round_even_def power_int_minus)

lemma round64_1e_17: "round64 (1 / 10 ^ 17) = Fin (6490371073168535 / 2 ^ 109)"
  using round64_eval[of "-57" "1 / 10 ^ 17" 6490371073168535]
  by (simp add: round_even_def power_int_minus)

lemma lit_1e_18_eq: "lit_1e_18 = Fin (5192296858534828 / 2 ^ 112)"
  unfolding lit_1e_18_def
  using round64_eval[of "-60" "1 / 10 ^ 18" 5192296858534828]
  by (simp add: round_even_def power_int_minus)

lemma sub_1_0: "num_sub (Fin 1) (Fin 0) = Fin 1"
  by (simp add: num_sub_def round64_1)

lemma out_tenth_steps:
  "round64 (3 * (7205759403792794 / 2 ^ 56)) = Fin (5404319552844596 / 2 ^ 54)"
  "round64 (6490371073168535 / 2 ^ 109 + 3) = Fin 3"
  "round64 (5404319552844596 / 2 ^ 54 / 3) = Fin (7205759403792795 / 2 ^ 56)"
proof -
  show "round64 (3 * (7205759403792794 / 2 ^ 56)) = Fin (5404319552844596 / 2 ^ 54)"
    using round64_eval[of "-2" "3 * (7205759403792794 / 2 ^ 56)" 5404319552844596]
    by (simp add: round_even_def power_int_minus)
  show "round64 (6490371073168535 / 2 ^ 109 + 3) = Fin 3"
    using round64_eval[of 1 "6490371073168535 / 2 ^ 109 + 3" 6755399441055744]
    by (simp add: round_even_def power_int_minus)
  show "round64 (5404319552844596 / 2 ^ 54 / 3) = Fin (7205759403792795 / 2 ^ 56)"
    using round64_eval[of "-4" "5404319552844596 / 2 ^ 54 / 3" 7205759403792795]
    by (simp add: round_even_def power_int_minus)
qed

lemma out_tenth:
  "out (simulateXYK True (Fin 3) (Fin (6490371073168535 / 2 ^ 109))
          (Fin (7205759403792794 / 2 ^ 56)) (Fin 0)) = Fin (7205759403792795 / 2 ^ 56)"
proof -
  have "out (simulateXYK True (Fin 3) (Fin (6490371073168535 / 2 ^ 109))
          (Fin (7205759403792794 / 2 ^ 56)) (Fin 0)) =
        num_div (num_mul (num_mul (Fin 3) (num_sub (Fin 1) (Fin 0))) (Fin (7205759403792794 / 2 ^ 56)))
          (num_add (Fin (6490371073168535 / 2 ^ 109)) (num_mul (Fin 3) (num_sub (Fin 1) (Fin 0))))"
    by (rule out_buy_unfold) simp_all
  also have "\<dots> = Fin (7205759403792795 / 2 ^ 56)"
    by (simp only: sub_1_0 num_mul.simps num_add.simps num_div.simps mult_1_right round64_3
        out_tenth_steps number.simps if_False) simp
  finally show ?thesis .
qed

text \<open>
  C1 (as stated: for positive reserves, a positive amount and a fee in \<open>[0,1)\<close> the output
  never exceeds the reserve of the output asset).  In double arithmetic it can: simulating
  native-to-token with \<^verbatim>\<open>amountIn = 3\<close>, \<^verbatim>\<open>Rz = 1e-17\<close>, \<^verbatim>\<open>Rt = 0.1\<close> and \<^verbatim>\<open>fee = 0\<close>, the
  product \<^verbatim>\<open>3 * 0.1\<close> rounds up to \<^verbatim>\<open>0.30000000000000004\<close>, the sum \<^verbatim>\<open>1e-17 + 3\<close> rounds to
  \<^verbatim>\<open>3\<close>, and the quotient is \<^verbatim>\<open>0.10000000000000002\<close>, one unit in the last place above the
  reserve \<^verbatim>\<open>Rt = 0.1\<close>.
\<close>

theorem simulateXYK_conservation_counterexample:
  "out (simulateXYK True (Fin 3) (round64 (1 / 10 ^ 17)) (round64 (1 / 10)) (Fin 0))
     = Fin (7205759403792795 / 2 ^ 56)
   \<and> round64 (1 / 10) = Fin (7205759403792794 / 2 ^ 56)
   \<and> num_gt (out (simulateXYK True (Fin 3) (round64 (1 / 10 ^ 17)) (round64 (1 / 10)) (Fin 0)))
        (round64 (1 / 10))"
  unfolding round64_tenth round64_1e_17 out_tenth by simp

text \<open>
  Near the top of the double range the product \<^verbatim>\<open>xin * Rt\<close> overflows and the output is
  \<^verbatim>\<open>Infinity\<close>.
\<close>

lemma simulateXYK_overflow:
  "out (simulateXYK True (Fin (2 ^ 1023)) (Fin 1) (Fin 100) (Fin 0)) = PInf"
proof -
  have x: "round64 (2 ^ 1023) = Fin (2 ^ 1023)"
    using round64_eval[of 1023 "2 ^ 1023" 4503599627370496]
    by (simp add: round_even_def power_int_minus)
  have d: "round64 (1 + 2 ^ 1023) = Fin (2 ^ 1023)"
    using round64_eval[of 1023 "1 + 2 ^ 1023" 4503599627370496]
    by (simp add: round_even_def power_int_minus)
  have n: "round64 (2 ^ 1023 * 100) = PInf" by (simp add: round64_def)
  have "out (simulateXYK True (Fin (2 ^ 1023)) (Fin 1) (Fin 100) (Fin 0)) =
        num_div (num_mul (num_mul (Fin (2 ^ 1023)) (num_sub (Fin 1) (Fin 0))) (Fin 100))
          (num_add (Fin 1) (num_mul (Fin (2 ^ 1023)) (num_sub (Fin 1) (Fin 0))))"
    by (rule out_buy_unfold) simp_all
  also have "\<dots> = PInf"
    by (simp only: sub_1_0 num_mul.simps num_add.simps mult_1_right x d n) (simp add: inf_of_def)
  finally show ?thesis .
qed

text \<open>
  C1 (amended).  The guard is exact: when a reserve or the amount is not greater than zero
  (a \<^verbatim>\<open>NaN\<close> included) the result is \<^verbatim>\<open>{out: 0, price: 0, impact: 0}\<close>. Conservation holds up to
  rounding: for reserves and an amount between \<open>2^-300\<close> and \<open>2^300\<close> and a fee in \<open>[0,1)\<close> (as
  a double, at most \<open>1 - 2^-53\<close>), the output of either direction is a positive finite double and
  exceeds the reserve of the output asset by at most the relative amount \<open>2^-50\<close>.
\<close>

theorem simulateXYK_guard_and_conservation:
  fixes a rz rt f :: real
  shows "(\<not> (num_gt Rz (Fin 0) \<and> num_gt Rt (Fin 0)) \<or> \<not> num_gt amountIn (Fin 0) \<longrightarrow>
           simulateXYK fromIsZig amountIn Rz Rt fee = \<lparr>out = Fin 0, price = Fin 0, impact = Fin 0\<rparr>)
       \<and> (1 / 2 ^ 300 \<le> a \<and> a \<le> 2 ^ 300 \<and> 1 / 2 ^ 300 \<le> rz \<and> rz \<le> 2 ^ 300
            \<and> 1 / 2 ^ 300 \<le> rt \<and> rt \<le> 2 ^ 300 \<and> 0 \<le> f \<and> f \<le> 1 - 1 / 2 ^ 53 \<longrightarrow>
           (\<exists>v. out (simulateXYK True (Fin a) (Fin rz) (Fin rt) (Fin f)) = Fin v
                  \<and> 0 < v \<and> v \<le> rt * (1 + 1 / 2 ^ 50))
         \<and> (\<exists>v. out (simulateXYK False (Fin a) (Fin rz) (Fin rt) (Fin f)) = Fin v
                  \<and> 0 < v \<and> v \<le> rz * (1 + 1 / 2 ^ 50)))"
proof (intro conjI impI)
  assume "\<not> (num_gt Rz (Fin 0) \<and> num_gt Rt (Fin 0)) \<or> \<not> num_gt amountIn (Fin 0)"
  then show "simulateXYK fromIsZig amountIn Rz Rt fee = \<lparr>out = Fin 0, price = Fin 0, impact = Fin 0\<rparr>"
    by (rule simulateXYK_zero)
next
  assume h: "1 / 2 ^ 300 \<le> a \<and> a \<le> 2 ^ 300 \<and> 1 / 2 ^ 300 \<le> rz \<and> rz \<le> 2 ^ 300
            \<and> 1 / 2 ^ 300 \<le> rt \<and> rt \<le> 2 ^ 300 \<and> 0 \<le> f \<and> f \<le> 1 - 1 / 2 ^ 53"
  then have p: "0 < a" "0 < rz" "0 < rt"
    by (simp_all add: less_le_trans[of 0 "1 / 2 ^ 300"])
  from h have "\<exists>v. num_div (num_mul (num_mul (Fin a) (num_sub (Fin 1) (Fin f))) (Fin rt))
               (num_add (Fin rz) (num_mul (Fin a) (num_sub (Fin 1) (Fin f)))) = Fin v
            \<and> close_to 7 (a * (1 - f) * rt / (rz + a * (1 - f))) v
            \<and> 0 < v \<and> v \<le> rt * (1 + 1 / 2 ^ 50)"
    by (intro xyk_out_bound) simp_all
  then show "\<exists>v. out (simulateXYK True (Fin a) (Fin rz) (Fin rt) (Fin f)) = Fin v
                  \<and> 0 < v \<and> v \<le> rt * (1 + 1 / 2 ^ 50)"
    unfolding out_buy_unfold[OF p(2,3,1)] by blast
next
  assume h: "1 / 2 ^ 300 \<le> a \<and> a \<le> 2 ^ 300 \<and> 1 / 2 ^ 300 \<le> rz \<and> rz \<le> 2 ^ 300
            \<and> 1 / 2 ^ 300 \<le> rt \<and> rt \<le> 2 ^ 300 \<and> 0 \<le> f \<and> f \<le> 1 - 1 / 2 ^ 53"
  then have p: "0 < a" "0 < rz" "0 < rt"
    by (simp_all add: less_le_trans[of 0 "1 / 2 ^ 300"])
  from h have "\<exists>v. num_div (num_mul (num_mul (Fin a) (num_sub (Fin 1) (Fin f))) (Fin rz))
               (num_add (Fin rt) (num_mul (Fin a) (num_sub (Fin 1) (Fin f)))) = Fin v
            \<and> close_to 7 (a * (1 - f) * rz / (rt + a * (1 - f))) v
            \<and> 0 < v \<and> v \<le> rz * (1 + 1 / 2 ^ 50)"
    by (intro xyk_out_bound) simp_all
  then show "\<exists>v. out (simulateXYK False (Fin a) (Fin rz) (Fin rt) (Fin f)) = Fin v
                  \<and> 0 < v \<and> v \<le> rz * (1 + 1 / 2 ^ 50)"
    unfolding out_sell_unfold[OF p(2,3,1)] by blast
qed

theorem simulateXYK_guard_and_conservation_witness:
  "simulateXYK True (Fin 0) (Fin 1) (Fin 2) (Fin 0) = \<lparr>out = Fin 0, price = Fin 0, impact = Fin 0\<rparr>
   \<and> (\<exists>v. out (simulateXYK True (Fin 3) (Fin 1) (Fin 2) (Fin 0)) = Fin v
            \<and> 0 < v \<and> v \<le> 2 * (1 + 1 / 2 ^ 50))
   \<and> (\<exists>v. out (simulateXYK False (Fin 3) (Fin 1) (Fin 2) (Fin 0)) = Fin v
            \<and> 0 < v \<and> v \<le> 1 * (1 + 1 / 2 ^ 50))"
  using simulateXYK_guard_and_conservation[of "Fin 1" "Fin 2" "Fin 0" True "Fin 0" 3 1 2 0]
    simulateXYK_guard_and_conservation[of "Fin 1" "Fin 2" "Fin 3" True "Fin 0" 3 1 2 0]
  by simp

lemma fl_small:
  assumes "0 \<le> x" "x \<le> b" "1 / 2 ^ 1000 \<le> b" "b \<le> 1"
  shows "\<exists>y. round64 x = Fin y \<and> 0 \<le> y \<and> y \<le> 2 * b"
proof -
  have "\<bar>x\<bar> \<le> 2 ^ 1023" using assms by simp
  from fl_abs[OF this] obtain y where
    y: "round64 x = Fin y" "\<bar>y - x\<bar> \<le> \<bar>x\<bar> * u64 + 1 / 2 ^ 1075" "0 \<le> x \<longrightarrow> 0 \<le> y" by blast
  have "(1::real) / 2 ^ 1075 \<le> 1 / 2 ^ 1000 / 2" by simp
  also have "\<dots> \<le> b / 2" using assms(3) by (rule divide_right_mono) simp
  finally have t: "1 / 2 ^ 1075 \<le> b / 2" .
  have xu: "x * u64 \<le> b * (1 / 2)"
    using assms(1,2) u64_bounds by (intro mult_mono) (simp_all add: u64_def)
  have "y \<le> x + x * u64 + 1 / 2 ^ 1075" using y(2) assms(1) by (simp add: abs_le_iff)
  also have "\<dots> \<le> b + b * (1 / 2) + b / 2" by (intro add_mono assms(2) xu t)
  finally have "y \<le> 2 * b" by simp
  with y assms(1) show ?thesis by blast
qed

text \<open>
  Below an output of \<^verbatim>\<open>1e-18\<close> the effective price is \<^verbatim>\<open>amountIn / 1e-18\<close>: with unit reserves
  and no fee, every amount up to \<open>2^-120\<close> has impact exactly \<open>-1\<close>.
\<close>

lemma impact_small:
  assumes "0 < a" "a \<le> 1 / 2 ^ 120"
  shows "impact (simulateXYK True (Fin a) (Fin 1) (Fin 1) (Fin 0)) = Fin (- 1)"
proof -
  have "\<exists>y. round64 a = Fin y \<and> 0 \<le> y \<and> y \<le> 2 * (1 / 2 ^ 120)"
    using assms by (intro fl_small) simp_all
  then obtain x where x: "round64 a = Fin x" "0 \<le> x" "x \<le> 1 / 2 ^ 119" by auto
  have "\<exists>y. round64 x = Fin y \<and> 0 \<le> y \<and> y \<le> 2 * (1 / 2 ^ 119)"
    using x by (intro fl_small) simp_all
  then obtain n where n: "round64 x = Fin n" "0 \<le> n" "n \<le> 1 / 2 ^ 118" by auto
  have "\<bar>1 + x\<bar> \<le> 2 ^ 1023" using x by simp
  from fl_abs[OF this] obtain d where
    d: "round64 (1 + x) = Fin d" "\<bar>d - (1 + x)\<bar> \<le> \<bar>1 + x\<bar> * u64 + 1 / 2 ^ 1075" by blast
  have "(1 + x) * u64 \<le> 2 * (1 / 4)"
    using x u64_bounds by (intro mult_mono) (simp_all add: u64_def)
  moreover have "(1::real) / 2 ^ 1075 \<le> 1 / 4" by simp
  ultimately have dl: "1 / 4 \<le> d" using d(2) x(2) by (simp add: abs_le_iff)
  have "n / d \<le> (1 / 2 ^ 118) / (1 / 4)" using n dl by (intro frac_le) simp_all
  then have nd: "0 \<le> n / d" "n / d \<le> 1 / 2 ^ 116" using n(2) dl by simp_all
  have "\<exists>y. round64 (n / d) = Fin y \<and> 0 \<le> y \<and> y \<le> 2 * (1 / 2 ^ 116)"
    using nd by (intro fl_small) simp_all
  then obtain v where v: "round64 (n / d) = Fin v" "0 \<le> v" "v \<le> 1 / 2 ^ 115" by auto
  have o: "out (simulateXYK True (Fin a) (Fin 1) (Fin 1) (Fin 0)) = Fin v"
    using x n d dl v(1) by (simp add: out_buy_unfold[OF _ _ assms(1)] sub_1_0)
  have "v < 5192296858534828 / 2 ^ 112"
    by (rule le_less_trans[OF v(3)]) simp
  then have mx: "num_max (Fin v) lit_1e_18 = Fin (5192296858534828 / 2 ^ 112)"
    by (simp add: lit_1e_18_eq)
  have "a / (5192296858534828 / 2 ^ 112) \<le> (1 / 2 ^ 120) / (1 / 2 ^ 60)"
    using assms by (rule_tac frac_le) simp_all
  then have al: "0 \<le> a / (5192296858534828 / 2 ^ 112)" "a / (5192296858534828 / 2 ^ 112) \<le> 1 / 2 ^ 60"
    using assms(1) by simp_all
  have "\<exists>y. round64 (a / (5192296858534828 / 2 ^ 112)) = Fin y \<and> 0 \<le> y \<and> y \<le> 2 * (1 / 2 ^ 60)"
    using al by (intro fl_small) simp_all
  then obtain e where e: "round64 (a / (5192296858534828 / 2 ^ 112)) = Fin e" "0 \<le> e" "e \<le> 1 / 2 ^ 59"
    by auto
  have "\<exists>y. round64 e = Fin y \<and> 0 \<le> y \<and> y \<le> 2 * (1 / 2 ^ 59)"
    using e by (intro fl_small) simp_all
  then obtain q where q: "round64 e = Fin q" "0 \<le> q" "q \<le> 1 / 2 ^ 58" by auto
  have "round64 (q + - 1) = Fin (- 1)"
    using q by (intro round64_minus_one) simp_all
  then have "num_sub (num_div (num_div (Fin a) (num_max (Fin v) lit_1e_18)) (num_div (Fin 1) (Fin 1))) (Fin 1)
               = Fin (- 1)"
    unfolding mx using e(1) q(1) by (simp add: num_sub_def round64_1)
  then show ?thesis
    unfolding impact_buy_unfold[OF zero_less_one zero_less_one assms(1)] o
    by (simp add: round64_1)
qed

lemma round64_pow60:
  "round64 1152921504606846976 = Fin 1152921504606846976"
  "round64 1152921504606846977 = Fin 1152921504606846976"
  "round64 1152921504606846978 = Fin 1152921504606846976"
  "round64 2305843009213693952 = Fin 2305843009213693952"
proof -
  show "round64 1152921504606846976 = Fin 1152921504606846976"
    using round64_eval[of 60 1152921504606846976 4503599627370496]
    by (simp add: round_even_def power_int_minus)
  show "round64 1152921504606846977 = Fin 1152921504606846976"
    using round64_eval[of 60 1152921504606846977 4503599627370496]
    by (simp add: round_even_def power_int_minus)
  show "round64 1152921504606846978 = Fin 1152921504606846976"
    using round64_eval[of 60 1152921504606846978 4503599627370496]
    by (simp add: round_even_def power_int_minus)
  show "round64 2305843009213693952 = Fin 2305843009213693952"
    using round64_eval[of 61 2305843009213693952 4503599627370496]
    by (simp add: round_even_def power_int_minus)
qed

text \<open>
  With reserves of \<open>2^60\<close> the sum \<^verbatim>\<open>Rz + xin\<close> rounds back to \<^verbatim>\<open>Rz\<close> for the amounts 1 and 2,
  so both have impact 0.
\<close>

lemma impact_plateau:
  "impact (simulateXYK True (Fin 1) (Fin (2 ^ 60)) (Fin (2 ^ 60)) (Fin 0)) = Fin 0"
  "impact (simulateXYK True (Fin 2) (Fin (2 ^ 60)) (Fin (2 ^ 60)) (Fin 0)) = Fin 0"
  by (simp_all add: simulateXYK_def Let_def num_sub_def round64_0 round64_1 round64_2
      round64_pow60 lit_1e_18_eq)

text \<open>
  C2 (as stated: for fixed positive reserves and a fixed fee in \<open>[0,1)\<close> the
  native-to-token impact tends to 0 as the amount tends to 0 from above, and is strictly
  increasing in the amount).  With unit reserves and no fee the impact is exactly \<open>-1\<close> for every
  positive amount up to \<open>2^-120\<close>, so it stays at distance 1 from 0; and with reserves of \<open>2^60\<close>
  the amounts 1 and 2 have the same impact.
\<close>

theorem simulateXYK_impact_limit_counterexample:
  "\<not> (\<exists>a. 0 < a \<and> a \<le> 1 / 2 ^ 120
          \<and> impact (simulateXYK True (Fin a) (Fin 1) (Fin 1) (Fin 0)) \<noteq> Fin (- 1))
   \<and> impact (simulateXYK True (Fin 1) (Fin (2 ^ 60)) (Fin (2 ^ 60)) (Fin 0))
       = impact (simulateXYK True (Fin 2) (Fin (2 ^ 60)) (Fin (2 ^ 60)) (Fin 0))"
  using impact_small by (auto simp only: impact_plateau)

text \<open>
  Where the output is not clamped, the impact \<^verbatim>\<open>effZigPerToken / mid - 1\<close> is eleven roundings
  away from \<open>fee / (1 - fee) + amountIn / Rz\<close>.
\<close>

lemma impact_buy_estimate:
  assumes a: "1 / 2 ^ 300 \<le> a" "a \<le> 2 ^ 300"
    and f: "0 \<le> f" "f \<le> 1 - 1 / 2 ^ 53"
    and rz: "1 / 2 ^ 300 \<le> rz" "rz \<le> 2 ^ 300"
    and rt: "1 / 2 ^ 300 \<le> rt" "rt \<le> 2 ^ 300"
    and unclamped: "\<not> num_gt lit_1e_18 (out (simulateXYK True (Fin a) (Fin rz) (Fin rt) (Fin f)))"
  shows "\<exists>i. impact (simulateXYK True (Fin a) (Fin rz) (Fin rt) (Fin f)) = Fin i
            \<and> \<bar>i - (f / (1 - f) + a / rz)\<bar> \<le> (1 / (1 - f) + a / rz) / 2 ^ 49"
proof -
  define k where "k = 1 - f"
  define Q where "Q = 1 / k + a / rz"
  have k: "1 / 2 ^ 53 \<le> k" "k \<le> 1" using f by (simp_all add: k_def)
  have kp: "0 < k" using k(1) by (simp add: less_le_trans[of 0 "1 / 2 ^ 53"])
  have ap: "0 < a" using a(1) by (simp add: less_le_trans[of 0 "1 / 2 ^ 300"])
  have rzp: "0 < rz" using rz(1) by (simp add: less_le_trans[of 0 "1 / 2 ^ 300"])
  have rtp: "0 < rt" using rt(1) by (simp add: less_le_trans[of 0 "1 / 2 ^ 300"])
  have ou: "out (simulateXYK True (Fin a) (Fin rz) (Fin rt) (Fin f)) =
           num_div (num_mul (num_mul (Fin a) (num_sub (Fin 1) (Fin f))) (Fin rt))
             (num_add (Fin rz) (num_mul (Fin a) (num_sub (Fin 1) (Fin f))))"
    by (rule out_buy_unfold[OF rzp rtp ap])
  from xyk_out_bound[OF a f rz rt] obtain v where
    v: "out (simulateXYK True (Fin a) (Fin rz) (Fin rt) (Fin f)) = Fin v"
       "close_to 7 (a * k * rt / (rz + a * k)) v" "0 < v"
    unfolding ou k_def by blast
  have mx: "num_max (Fin v) lit_1e_18 = Fin v"
    using unclamped unfolding v(1) lit_1e_18_eq by simp
  have E: "a / (a * k * rt / (rz + a * k)) = (rz + a * k) / (k * rt)"
    using ap kp rtp rzp by (simp add: field_simps)
  have e0: "close_to 7 ((rz + a * k) / (k * rt)) (a / v)"
    using close_to_div[OF close_to_refl[OF ap] v(2)] unfolding E by simp
  have akr: "1 / 2 ^ 300 * (1 / 2 ^ 53) \<le> a * k" "a * k \<le> 2 ^ 300 * 1"
    using mult_range[OF a k] by simp_all
  have nr: "1 / 2 ^ 300 \<le> rz + a * k" "rz + a * k \<le> 2 ^ 300 + 2 ^ 300 * 1"
  proof -
    have "0 \<le> a * k" using ap kp by simp
    then show "1 / 2 ^ 300 \<le> rz + a * k" using rz(1) by linarith
    show "rz + a * k \<le> 2 ^ 300 + 2 ^ 300 * 1" using rz(2) akr(2) by (rule add_mono)
  qed
  have dr: "1 / 2 ^ 53 * (1 / 2 ^ 300) \<le> k * rt" "k * rt \<le> 1 * 2 ^ 300"
    using mult_range[OF k rt] by simp_all
  have er: "1 / 2 ^ 300 / (1 * 2 ^ 300) \<le> (rz + a * k) / (k * rt)"
           "(rz + a * k) / (k * rt) \<le> (2 ^ 300 + 2 ^ 300 * 1) / (1 / 2 ^ 53 * (1 / 2 ^ 300))"
    using div_range[OF nr dr] by simp_all
  have "\<exists>y. round64 (a / v) = Fin y \<and> close_to (Suc 7) ((rz + a * k) / (k * rt)) y"
  proof (rule fl_close_step)
    show "close_to 7 ((rz + a * k) / (k * rt)) (a / v)" by (rule e0)
    show "1 / 2 ^ 1000 \<le> (rz + a * k) / (k * rt)" by (rule order_trans[OF _ er(1)]) simp
    show "(rz + a * k) / (k * rt) \<le> 2 ^ 1000" by (rule order_trans[OF er(2)]) simp
  qed simp
  then obtain e where e: "round64 (a / v) = Fin e" "close_to 8 ((rz + a * k) / (k * rt)) e"
    by auto
  have mr: "1 / 2 ^ 300 / 2 ^ 300 \<le> rz / rt" "rz / rt \<le> 2 ^ 300 / (1 / 2 ^ 300)"
    using div_range[OF rz rt] by simp_all
  have mp: "0 < rz / rt" using rzp rtp by simp
  have "\<exists>y. round64 (rz / rt) = Fin y \<and> close_to (Suc 0) (rz / rt) y"
  proof (rule fl_close_step)
    show "close_to 0 (rz / rt) (rz / rt)" using mp by (rule close_to_refl)
    show "1 / 2 ^ 1000 \<le> rz / rt" by (rule order_trans[OF _ mr(1)]) simp
    show "rz / rt \<le> 2 ^ 1000" by (rule order_trans[OF mr(2)]) simp
  qed simp
  then obtain m where m: "round64 (rz / rt) = Fin m" "close_to 1 (rz / rt) m" by auto
  have mpos: "0 < m" using m(2) by (rule close_to_pos)
  have QE: "(rz + a * k) / (k * rt) / (rz / rt) = Q"
    using kp rtp rzp by (simp add: Q_def field_simps)
  have q0: "close_to 9 Q (e / m)"
    using close_to_div[OF e(2) m(2)] unfolding QE by simp
  have kr: "1 / 1 \<le> 1 / k" "1 / k \<le> 1 / (1 / 2 ^ 53)"
    using div_range[of 1 1 1 "1 / 2 ^ 53" k 1] k by simp_all
  have ar: "1 / 2 ^ 300 / 2 ^ 300 \<le> a / rz" "a / rz \<le> 2 ^ 300 / (1 / 2 ^ 300)"
    using div_range[OF a rz] by simp_all
  have arp: "0 < a / rz" using ap rzp by simp
  have Q1: "1 \<le> Q" using kr(1) arp by (simp add: Q_def)
  have Q2: "Q \<le> 1 / (1 / 2 ^ 53) + 2 ^ 300 / (1 / 2 ^ 300)"
    unfolding Q_def using kr(2) ar(2) by (rule add_mono)
  have "\<exists>y. round64 (e / m) = Fin y \<and> close_to (Suc 9) Q y"
  proof (rule fl_close_step)
    show "close_to 9 Q (e / m)" by (rule q0)
    show "1 / 2 ^ 1000 \<le> Q" by (rule order_trans[OF _ Q1]) simp
    show "Q \<le> 2 ^ 1000" by (rule order_trans[OF Q2]) simp
  qed simp
  then obtain q where q: "round64 (e / m) = Fin q" "close_to 10 Q q" by auto
  have qb: "Q * (1 - real 10 * u64) \<le> q" "q \<le> Q * (1 + real (Suc 10) * u64)"
    using close_to_bound[OF q(2)] by simp_all
  have qp: "0 < q" using q(2) by (rule close_to_pos)
  have "q \<le> Q * 2"
    by (rule order_trans[OF qb(2)]) (use Q1 in \<open>simp add: u64_def\<close>)
  also have "\<dots> \<le> (1 / (1 / 2 ^ 53) + 2 ^ 300 / (1 / 2 ^ 300)) * 2"
    using Q2 by (rule mult_right_mono) simp
  finally have "\<bar>q + - 1\<bar> \<le> 2 ^ 1023" using qp by (simp add: abs_le_iff)
  from fl_abs[OF this] obtain i where
    i: "round64 (q + - 1) = Fin i" "\<bar>i - (q + - 1)\<bar> \<le> \<bar>q + - 1\<bar> * u64 + 1 / 2 ^ 1075" by blast
  have im: "impact (simulateXYK True (Fin a) (Fin rz) (Fin rt) (Fin f)) = Fin i"
    unfolding impact_buy_unfold[OF rzp rtp ap] v(1) mx
    using e(1) m(1) mpos q(1) i(1) v(3) rtp by (simp add: num_sub_def)
  have t: "(1::real) / 2 ^ 1075 \<le> Q / 2 ^ 53"
  proof -
    have "(1::real) / 2 ^ 1075 \<le> 1 / 2 ^ 53" by simp
    also have "\<dots> \<le> Q / 2 ^ 53" using Q1 by (rule divide_right_mono) simp
    finally show ?thesis .
  qed
  have aq: "\<bar>q + - 1\<bar> \<le> q + 1" using qp by (simp add: abs_le_iff)
  have s: "\<bar>q + - 1\<bar> * u64 \<le> (q + 1) / 2 ^ 53"
    using aq by (simp add: u64_def divide_right_mono)
  have "\<bar>i - (q + - 1)\<bar> \<le> \<bar>q + - 1\<bar> * u64 + 1 / 2 ^ 1075" by (rule i(2))
  also have "\<dots> \<le> (q + 1) / 2 ^ 53 + Q / 2 ^ 53" by (rule add_mono[OF s t])
  finally have i2: "\<bar>i - (q - 1)\<bar> \<le> (q + 1) / 2 ^ 53 + Q / 2 ^ 53" by simp
  define w where "w = Q / 2 ^ 53"
  have wp: "0 \<le> w" using Q1 by (simp add: w_def)
  have w11: "11 * w \<le> Q" using Q1 by (simp add: w_def)
  have q1: "Q - 10 * w \<le> q" using qb(1) by (simp add: u64_def w_def algebra_simps)
  have q2: "q \<le> Q + 11 * w" using qb(2) by (simp add: u64_def w_def algebra_simps)
  have "q + 1 \<le> 3 * Q" using q2 w11 Q1 by linarith
  then have "(q + 1) / 2 ^ 53 \<le> 3 * Q / 2 ^ 53" by (rule divide_right_mono) simp
  also have "3 * Q / 2 ^ 53 = 3 * w" by (simp add: w_def)
  finally have "(q + 1) / 2 ^ 53 + w \<le> 3 * w + w" by (rule add_right_mono)
  then have "(q + 1) / 2 ^ 53 + Q / 2 ^ 53 \<le> 4 * w" unfolding w_def[symmetric] by linarith
  with i2 have i3: "\<bar>i - (q - 1)\<bar> \<le> 4 * w" by (rule order_trans)
  have "\<bar>i - (Q - 1)\<bar> \<le> 16 * w"
    using i3 q1 q2 wp unfolding abs_le_iff by linarith
  also have "16 * w = Q / 2 ^ 49" by (simp add: w_def)
  finally have b: "\<bar>i - (Q - 1)\<bar> \<le> Q / 2 ^ 49" .
  have "1 / (1 - f) - 1 = f / (1 - f)"
    using kp by (simp add: k_def field_simps)
  then have QI: "Q - 1 = f / (1 - f) + a / rz"
    by (simp add: Q_def k_def)
  have "\<bar>i - (f / (1 - f) + a / rz)\<bar> \<le> (1 / (1 - f) + a / rz) / 2 ^ 49"
    using b unfolding QI unfolding Q_def k_def .
  with im show ?thesis by blast
qed

lemma out_examples:
  "out (simulateXYK True (Fin 1) (Fin 1) (Fin 3) (Fin 0)) = Fin (3 / 2)"
  "out (simulateXYK True (Fin 2) (Fin 1) (Fin 3) (Fin 0)) = Fin 2"
proof -
  have h: "round64 (3 / 2) = Fin (3 / 2)" "round64 6 = Fin 6"
    using round64_eval[of 0 "3 / 2" 6755399441055744] round64_eval[of 2 6 6755399441055744]
    by (simp_all add: round_even_def power_int_minus)
  show "out (simulateXYK True (Fin 1) (Fin 1) (Fin 3) (Fin 0)) = Fin (3 / 2)"
    by (simp add: simulateXYK_def Let_def num_sub_def round64_1 round64_2 round64_3 h)
  show "out (simulateXYK True (Fin 2) (Fin 1) (Fin 3) (Fin 0)) = Fin 2"
    by (simp add: simulateXYK_def Let_def num_sub_def round64_1 round64_2 round64_3 h)
qed

text \<open>
  C2 (amended).  For reserves and amounts between \<open>2^-300\<close> and \<open>2^300\<close>, a fee in \<open>[0,1)\<close>
  and an output of at least \<^verbatim>\<open>1e-18\<close>, the native-to-token impact is a finite double within
  \<open>(1 / (1 - fee) + amountIn / Rz) / 2^49\<close> of \<open>fee / (1 - fee) + amountIn / Rz\<close>. So for small
  amounts it is close to \<open>fee / (1 - fee)\<close>, which is 0 only for a zero fee, and of two such
  amounts the larger has the strictly larger impact whenever the exact values
  \<open>amountIn / Rz\<close> differ by more than the two rounding bounds together.
\<close>

theorem simulateXYK_impact_estimate:
  assumes "0 \<le> f" "f \<le> 1 - 1 / 2 ^ 53"
    and "1 / 2 ^ 300 \<le> rz" "rz \<le> 2 ^ 300" "1 / 2 ^ 300 \<le> rt" "rt \<le> 2 ^ 300"
    and "1 / 2 ^ 300 \<le> a" "a \<le> 2 ^ 300"
    and "\<not> num_gt lit_1e_18 (out (simulateXYK True (Fin a) (Fin rz) (Fin rt) (Fin f)))"
    and "1 / 2 ^ 300 \<le> b" "b \<le> 2 ^ 300"
    and "\<not> num_gt lit_1e_18 (out (simulateXYK True (Fin b) (Fin rz) (Fin rt) (Fin f)))"
  shows "\<exists>i j. impact (simulateXYK True (Fin a) (Fin rz) (Fin rt) (Fin f)) = Fin i
            \<and> impact (simulateXYK True (Fin b) (Fin rz) (Fin rt) (Fin f)) = Fin j
            \<and> \<bar>i - (f / (1 - f) + a / rz)\<bar> \<le> (1 / (1 - f) + a / rz) / 2 ^ 49
            \<and> \<bar>j - (f / (1 - f) + b / rz)\<bar> \<le> (1 / (1 - f) + b / rz) / 2 ^ 49
            \<and> ((1 / (1 - f) + a / rz) / 2 ^ 49 + (1 / (1 - f) + b / rz) / 2 ^ 49 < (b - a) / rz
                 \<longrightarrow> i < j)"
proof -
  from impact_buy_estimate[OF assms(7,8) assms(1,2) assms(3-6) assms(9)] obtain i where
    i: "impact (simulateXYK True (Fin a) (Fin rz) (Fin rt) (Fin f)) = Fin i"
       "\<bar>i - (f / (1 - f) + a / rz)\<bar> \<le> (1 / (1 - f) + a / rz) / 2 ^ 49" by blast
  from impact_buy_estimate[OF assms(10,11) assms(1,2) assms(3-6) assms(12)] obtain j where
    j: "impact (simulateXYK True (Fin b) (Fin rz) (Fin rt) (Fin f)) = Fin j"
       "\<bar>j - (f / (1 - f) + b / rz)\<bar> \<le> (1 / (1 - f) + b / rz) / 2 ^ 49" by blast
  have d: "(b - a) / rz = b / rz - a / rz" by (rule diff_divide_distrib)
  have "(1 / (1 - f) + a / rz) / 2 ^ 49 + (1 / (1 - f) + b / rz) / 2 ^ 49 < (b - a) / rz
          \<longrightarrow> i < j"
    using i(2) j(2) unfolding d abs_le_iff by linarith
  with i j show ?thesis by blast
qed

theorem simulateXYK_impact_estimate_witness:
  "\<exists>i j. impact (simulateXYK True (Fin 1) (Fin 1) (Fin 3) (Fin 0)) = Fin i
        \<and> impact (simulateXYK True (Fin 2) (Fin 1) (Fin 3) (Fin 0)) = Fin j
        \<and> \<bar>i - 1\<bar> \<le> 2 / 2 ^ 49 \<and> \<bar>j - 2\<bar> \<le> 3 / 2 ^ 49 \<and> i < j"
proof -
  have u: "\<not> num_gt lit_1e_18 (out (simulateXYK True (Fin 1) (Fin 1) (Fin 3) (Fin 0)))"
          "\<not> num_gt lit_1e_18 (out (simulateXYK True (Fin 2) (Fin 1) (Fin 3) (Fin 0)))"
    unfolding out_examples lit_1e_18_eq by simp_all
  have r: "(0::real) \<le> 0" "(0::real) \<le> 1 - 1 / 2 ^ 53"
    "(1::real) / 2 ^ 300 \<le> 1" "(1::real) \<le> 2 ^ 300"
    "(1::real) / 2 ^ 300 \<le> 3" "(3::real) \<le> 2 ^ 300"
    "(1::real) / 2 ^ 300 \<le> 2" "(2::real) \<le> 2 ^ 300"
    by simp_all
  from simulateXYK_impact_estimate[OF r(1,2) r(3,4) r(5,6) r(3,4) u(1) r(7,8) u(2)]
  show ?thesis by simp
qed

subsection \<open>Fee schedule\<close>













subsection \<open>OHLCV buckets\<close>

lemma alignSec_div:
  assumes "0 < stepSec"
  shows "alignSec ms stepSec = ms div (1000 * stepSec) * stepSec"
proof -
  have "real_of_int ms / 1000 / real_of_int stepSec = real_of_int ms / real_of_int (1000 * stepSec)"
    by simp
  then have "\<lfloor>real_of_int ms / 1000 / real_of_int stepSec\<rfloor> = ms div (1000 * stepSec)"
    by (simp only: floor_divide_of_int_eq)
  then show ?thesis by (simp add: alignSec_def)
qed

lemma alignSec_shift:
  assumes "0 < stepSec"
  shows "alignSec (ms + int n * stepSec * 1000) stepSec = alignSec ms stepSec + int n * stepSec"
proof -
  have nz: "1000 * stepSec \<noteq> 0" using assms by simp
  have r: "ms + int n * stepSec * 1000 = ms + int n * (1000 * stepSec)" by simp
  have "(ms + int n * (1000 * stepSec)) div (1000 * stepSec) = int n + ms div (1000 * stepSec)"
    using nz by (rule div_mult_self1)
  then have "(ms + int n * stepSec * 1000) div (1000 * stepSec) = int n + ms div (1000 * stepSec)"
    by (simp only: r)
  then show ?thesis using assms by (simp add: alignSec_div algebra_simps)
qed

lemma ohlcv_loop_done:
  assumes "\<not> (ts \<le> end_ts \<and> 0 < stepSec)"
  shows "ohlcv_loop ts end_ts stepSec fl bySec pc = []"
  by (subst ohlcv_loop.simps) (simp only: assms if_False)

lemma ohlcv_loop_step:
  assumes "ts \<le> end_ts" "0 < stepSec"
  shows "ohlcv_loop ts end_ts stepSec fl bySec pc =
           (case fst (bucket_step fl bySec ts pc) of Some b \<Rightarrow> [b] | None \<Rightarrow> [])
             @ ohlcv_loop (ts + stepSec) end_ts stepSec fl bySec (snd (bucket_step fl bySec ts pc))"
  using assms by (subst ohlcv_loop.simps) (simp add: case_prod_beta)

text \<open>A bucket emits a bar when it has a source bar, when empty buckets are zero-filled, or
  when they are filled from a known previous close.\<close>

lemma bucket_step_emit:
  assumes "bySec ts \<noteq> None \<or> fl = FillZero \<or> (fl = FillPrev \<and> pc \<noteq> None)"
  shows "\<exists>b. bucket_step fl bySec ts pc = (Some b, Some (close b)) \<and> ts_sec b = ts"
  using assms by (cases fl) (auto simp: bucket_step_def Let_def split: option.splits)

lemma bucket_step_skip:
  assumes "bySec ts = None" "fl \<noteq> FillZero" "fl = FillPrev \<longrightarrow> pc = None"
  shows "bucket_step fl bySec ts pc = (None, pc)"
  using assms by (cases fl) (auto simp: bucket_step_def)

lemma ohlcv_loop_all_emit:
  assumes "0 < stepSec" "fl \<noteq> FillNone"
      and "bySec ts \<noteq> None \<or> fl = FillZero \<or> pc \<noteq> None"
  shows "map ts_sec (ohlcv_loop ts (ts + int n * stepSec) stepSec fl bySec pc)
           = map (\<lambda>k. ts + int k * stepSec) [0..<Suc n]"
  using assms(3)
proof (induction n arbitrary: ts pc)
  case 0
  then have "bySec ts \<noteq> None \<or> fl = FillZero \<or> (fl = FillPrev \<and> pc \<noteq> None)"
    using assms(2) by (cases fl) auto
  from bucket_step_emit[of bySec ts fl pc, OF this] obtain b where
    b: "bucket_step fl bySec ts pc = (Some b, Some (close b))" "ts_sec b = ts" by blast
  have "ohlcv_loop (ts + stepSec) ts stepSec fl bySec (Some (close b)) = []"
    using assms(1) by (intro ohlcv_loop_done) simp
  then show ?case using b assms(1) by (simp add: ohlcv_loop_step)
next
  case (Suc n)
  then have "bySec ts \<noteq> None \<or> fl = FillZero \<or> (fl = FillPrev \<and> pc \<noteq> None)"
    using assms(2) by (cases fl) auto
  from bucket_step_emit[of bySec ts fl pc, OF this] obtain b where
    b: "bucket_step fl bySec ts pc = (Some b, Some (close b))" "ts_sec b = ts" by blast
  have le: "ts \<le> ts + int (Suc n) * stepSec" using assms(1) by simp
  have e: "ts + int (Suc n) * stepSec = (ts + stepSec) + int n * stepSec"
    by (simp add: algebra_simps)
  have ih: "map ts_sec (ohlcv_loop (ts + stepSec) ((ts + stepSec) + int n * stepSec) stepSec fl bySec
              (Some (close b)))
            = map (\<lambda>k. (ts + stepSec) + int k * stepSec) [0..<Suc n]"
    by (rule Suc.IH) simp
  have st: "ohlcv_loop ts (ts + int (Suc n) * stepSec) stepSec fl bySec pc
              = b # ohlcv_loop (ts + stepSec) ((ts + stepSec) + int n * stepSec) stepSec fl bySec
                      (Some (close b))"
    unfolding e[symmetric]
    by (subst ohlcv_loop_step[OF le assms(1)])
       (simp only: b fst_conv snd_conv option.case append_Cons append_Nil)
  have "map ts_sec (ohlcv_loop ts (ts + int (Suc n) * stepSec) stepSec fl bySec pc)
          = ts # map ts_sec (ohlcv_loop (ts + stepSec) ((ts + stepSec) + int n * stepSec) stepSec
                  fl bySec (Some (close b)))"
    by (simp only: st list.map b(2))
  also have "\<dots> = ts # map (\<lambda>k. (ts + stepSec) + int k * stepSec) [0..<Suc n]"
    by (simp only: ih)
  also have "\<dots> = map (\<lambda>k. ts + int k * stepSec) [0..<Suc (Suc n)]"
    by (subst (2) map_upt_Suc) (simp add: algebra_simps)
  finally show ?case .
qed

lemma bucket_step_Some:
  assumes "bucket_step fl bySec ts pc = (Some b, pc')"
  shows "ts_sec b = ts" "pc' = Some (close b)" "low b \<le> open_v b" "open_v b \<le> high b"
    "pc = Some p \<Longrightarrow> (fl = FillZero \<and> bySec ts = None) \<or> open_v b = p"
  using assms
  by (auto simp: bucket_step_def Let_def split: option.splits if_splits)

lemma bucket_step_None:
  assumes "bucket_step fl bySec ts pc = (None, pc')"
  shows "pc' = pc"
  using assms by (auto simp: bucket_step_def Let_def split: option.splits if_splits)

lemma ohlcv_loop_unfold:
  "ohlcv_loop ts end_ts stepSec fl bySec pc =
     (if ts \<le> end_ts \<and> 0 < stepSec then
        (case fst (bucket_step fl bySec ts pc) of Some b \<Rightarrow> [b] | None \<Rightarrow> [])
          @ ohlcv_loop (ts + stepSec) end_ts stepSec fl bySec (snd (bucket_step fl bySec ts pc))
      else [])"
  by (subst ohlcv_loop.simps) (simp add: case_prod_beta)

lemma ohlcv_loop_ts_range:
  "b \<in> set (ohlcv_loop ts end_ts stepSec fl bySec pc) \<Longrightarrow>
     ts \<le> ts_sec b \<and> ts_sec b \<le> end_ts \<and> stepSec dvd (ts_sec b - ts)"
proof (induction ts end_ts stepSec fl bySec pc rule: ohlcv_loop.induct)
  case (1 ts end_ts stepSec fl bySec pc)
  from "1.prems" have g: "ts \<le> end_ts \<and> 0 < stepSec"
    by (subst (asm) ohlcv_loop_unfold) (auto split: if_splits)
  obtain em pc' where st: "bucket_step fl bySec ts pc = (em, pc')"
    by (cases "bucket_step fl bySec ts pc")
  from "1.prems" g st
  have "b \<in> set (case em of Some b \<Rightarrow> [b] | None \<Rightarrow> [])
        \<or> b \<in> set (ohlcv_loop (ts + stepSec) end_ts stepSec fl bySec pc')"
    by (subst (asm) ohlcv_loop_unfold) auto
  then show ?case
  proof
    assume "b \<in> set (case em of Some b \<Rightarrow> [b] | None \<Rightarrow> [])"
    then have "em = Some b" by (cases em) auto
    with st have "bucket_step fl bySec ts pc = (Some b, pc')" by simp
    from bucket_step_Some(1)[OF this] g show ?thesis by simp
  next
    assume "b \<in> set (ohlcv_loop (ts + stepSec) end_ts stepSec fl bySec pc')"
    then have ih: "ts + stepSec \<le> ts_sec b \<and> ts_sec b \<le> end_ts
                    \<and> stepSec dvd (ts_sec b - (ts + stepSec))"
      by (rule "1.IH"[OF g st[symmetric]])
    then have "stepSec dvd (ts_sec b - (ts + stepSec)) + stepSec" by (intro dvd_add) simp_all
    moreover have "(ts_sec b - (ts + stepSec)) + stepSec = ts_sec b - ts" by simp
    ultimately have "stepSec dvd (ts_sec b - ts)" by simp
    with ih g show ?thesis by simp
  qed
qed

text \<open>
  C4 (as stated: a request over \<open>[T, T + N * step)\<close> with a source bar in every bucket and a
  fill policy other than \<open>none\<close> produces exactly \<open>N\<close> bars).  This fails: with \<open>T = 0\<close>,
  \<open>N = 1\<close>, a step of 60 seconds, a source bar in the bucket at 0 and zero fill, the loop runs
  over the aligned end point as well and emits two bars, at 0 and at 60.
\<close>

theorem ohlcv_bucket_count_counterexample:
  "[0 \<mapsto> bar_example] 0 \<noteq> None
   \<and> map ts_sec (ohlcv_out 0 (0 + 1 * 60 * 1000) 60 FillZero None [0 \<mapsto> bar_example]) = [0, 60]
   \<and> length (ohlcv_out 0 (0 + 1 * 60 * 1000) 60 FillZero None [0 \<mapsto> bar_example]) \<noteq> 1"
  by (simp add: ohlcv_out_def alignSec_def initPrevClose_def bucket_step_def bar_example_def
        ohlcv_loop.simps)

text \<open>
  C4 (amended).  Both range endpoints are floored to the step boundary and the buckets are
  iterated over \<open>[alignedFrom, alignedTo]\<close> inclusive in steps of \<open>step\<close> seconds, so every
  emitted bar has a timestamp in that range that is a multiple of \<open>step\<close>; a request over
  \<open>[T, T + N * step)\<close> with \<open>N \<ge> 1\<close>, a source bar in every bucket of that range and a fill
  policy other than \<open>none\<close> produces exactly \<open>N + 1\<close> bars, at
  \<open>alignedFrom, alignedFrom + step, \<dots>, alignedFrom + N * step = alignedTo\<close>.
\<close>

theorem ohlcv_bucket_count:
  assumes "0 < stepSec"
  shows "alignSec fromMs stepSec = fromMs div (1000 * stepSec) * stepSec
         \<and> alignSec toMs stepSec = toMs div (1000 * stepSec) * stepSec
         \<and> (\<forall>b \<in> set (ohlcv_out fromMs toMs stepSec fl seed bySec).
               alignSec fromMs stepSec \<le> ts_sec b \<and> ts_sec b \<le> alignSec toMs stepSec
               \<and> stepSec dvd ts_sec b)
         \<and> (fl \<noteq> FillNone \<and> 0 < N \<and> toMs = fromMs + int N * stepSec * 1000
              \<and> (\<forall>k<N. bySec (alignSec fromMs stepSec + int k * stepSec) \<noteq> None) \<longrightarrow>
               alignSec toMs stepSec = alignSec fromMs stepSec + int N * stepSec
               \<and> map ts_sec (ohlcv_out fromMs toMs stepSec fl seed bySec)
                   = map (\<lambda>k. alignSec fromMs stepSec + int k * stepSec) [0..<Suc N]
               \<and> length (ohlcv_out fromMs toMs stepSec fl seed bySec) = N + 1)"
proof -
  let ?s = "alignSec fromMs stepSec"
  let ?out = "ohlcv_out fromMs toMs stepSec fl seed bySec"
  have a: "?s = fromMs div (1000 * stepSec) * stepSec" using assms by (rule alignSec_div)
  have a': "alignSec toMs stepSec = toMs div (1000 * stepSec) * stepSec"
    using assms by (rule alignSec_div)
  have r: "\<forall>b \<in> set ?out. ?s \<le> ts_sec b \<and> ts_sec b \<le> alignSec toMs stepSec
              \<and> stepSec dvd ts_sec b"
  proof
    fix b assume "b \<in> set ?out"
    then have i: "?s \<le> ts_sec b \<and> ts_sec b \<le> alignSec toMs stepSec
                   \<and> stepSec dvd (ts_sec b - ?s)"
      unfolding ohlcv_out_def by (rule ohlcv_loop_ts_range)
    have "stepSec dvd ?s" by (simp add: a)
    with i have "stepSec dvd (ts_sec b - ?s) + ?s" by (intro dvd_add) simp_all
    then have "stepSec dvd ts_sec b" by simp
    with i show "?s \<le> ts_sec b \<and> ts_sec b \<le> alignSec toMs stepSec \<and> stepSec dvd ts_sec b"
      by simp
  qed
  have c: "fl \<noteq> FillNone \<and> 0 < N \<and> toMs = fromMs + int N * stepSec * 1000
              \<and> (\<forall>k<N. bySec (?s + int k * stepSec) \<noteq> None) \<longrightarrow>
             alignSec toMs stepSec = ?s + int N * stepSec
             \<and> map ts_sec ?out = map (\<lambda>k. ?s + int k * stepSec) [0..<Suc N]
             \<and> length ?out = N + 1"
  proof
    assume h: "fl \<noteq> FillNone \<and> 0 < N \<and> toMs = fromMs + int N * stepSec * 1000
              \<and> (\<forall>k<N. bySec (?s + int k * stepSec) \<noteq> None)"
    then have t: "toMs = fromMs + int N * stepSec * 1000" by simp
    have e: "alignSec toMs stepSec = ?s + int N * stepSec"
      unfolding t using assms by (rule alignSec_shift)
    have first: "bySec ?s \<noteq> None" using h by (auto dest: spec[of _ 0])
    have m: "map ts_sec ?out = map (\<lambda>k. ?s + int k * stepSec) [0..<Suc N]"
      unfolding ohlcv_out_def e using assms h first by (intro ohlcv_loop_all_emit) auto
    have "length (map ts_sec ?out) = length (map (\<lambda>k. ?s + int k * stepSec) [0..<Suc N])"
      by (simp only: m)
    then have l: "length ?out = N + 1" by simp
    from e m l show "alignSec toMs stepSec = ?s + int N * stepSec
             \<and> map ts_sec ?out = map (\<lambda>k. ?s + int k * stepSec) [0..<Suc N]
             \<and> length ?out = N + 1"
      by simp
  qed
  from a a' r c show ?thesis by simp
qed

theorem ohlcv_bucket_count_witness:
  "map ts_sec (ohlcv_out 0 120000 60 FillPrev None
      [0 \<mapsto> bar_example, 60 \<mapsto> bar_example\<lparr>ts_sec := 60\<rparr>]) = [0, 60, 120]
   \<and> length (ohlcv_out 0 120000 60 FillPrev None
      [0 \<mapsto> bar_example, 60 \<mapsto> bar_example\<lparr>ts_sec := 60\<rparr>]) = 3
   \<and> alignSec 119999 60 = 60"
proof -
  have a0: "alignSec 0 60 = 0" by (simp add: alignSec_def)
  have src: "\<forall>k<2. [0 \<mapsto> bar_example, 60 \<mapsto> bar_example\<lparr>ts_sec := 60\<rparr>]
               (alignSec 0 60 + int k * 60) \<noteq> None"
  proof (intro allI impI)
    fix k :: nat assume "k < 2"
    then have "k = 0 \<or> k = 1" by auto
    then show "[0 \<mapsto> bar_example, 60 \<mapsto> bar_example\<lparr>ts_sec := 60\<rparr>]
               (alignSec 0 60 + int k * 60) \<noteq> None"
      by (auto simp: a0)
  qed
  have p: "(0::int) < 60" by simp
  have u: "[0..<Suc 2] = [0, 1, 2]" by (simp add: upt_rec)
  have "map ts_sec (ohlcv_out 0 120000 60 FillPrev None
      [0 \<mapsto> bar_example, 60 \<mapsto> bar_example\<lparr>ts_sec := 60\<rparr>]) = [0, 60, 120]
   \<and> length (ohlcv_out 0 120000 60 FillPrev None
      [0 \<mapsto> bar_example, 60 \<mapsto> bar_example\<lparr>ts_sec := 60\<rparr>]) = 3"
    using ohlcv_bucket_count[OF p, of 0 120000 FillPrev None
            "[0 \<mapsto> bar_example, 60 \<mapsto> bar_example\<lparr>ts_sec := 60\<rparr>]" 2] src u
    by (simp add: a0)
  moreover have "alignSec 119999 60 = 60"
    using ohlcv_bucket_count[OF p, of 119999] by simp
  ultimately show ?thesis by simp
qed

subsection \<open>OHLCV continuity\<close>

lemma ohlcv_loop_head:
  "ohlcv_loop ts end_ts stepSec fl bySec pc = b # rest \<Longrightarrow> pc = Some p \<Longrightarrow>
     (fl = FillZero \<and> bySec (ts_sec b) = None) \<or> open_v b = p"
proof (induction ts end_ts stepSec fl bySec pc rule: ohlcv_loop.induct)
  case (1 ts end_ts stepSec fl bySec pc)
  from "1.prems"(1) have g: "ts \<le> end_ts \<and> 0 < stepSec"
    by (subst (asm) ohlcv_loop_unfold) (auto split: if_splits)
  obtain em pc' where st: "bucket_step fl bySec ts pc = (em, pc')" by (cases "bucket_step fl bySec ts pc")
  show ?case
  proof (cases em)
    case None
    with st have pc': "pc' = pc" by (simp add: bucket_step_None)
    from "1.prems"(1) g st None
    have "ohlcv_loop (ts + stepSec) end_ts stepSec fl bySec pc' = b # rest"
      by (subst (asm) ohlcv_loop_unfold) simp
    moreover have "pc' = Some p" using "1.prems"(2) pc' by simp
    ultimately show ?thesis by (rule "1.IH"[OF g st[symmetric]])
  next
    case (Some b')
    from "1.prems"(1) g st Some have "b' = b"
      by (subst (asm) ohlcv_loop_unfold) simp
    with st Some have "bucket_step fl bySec ts pc = (Some b, pc')" by simp
    from bucket_step_Some(1)[OF this] bucket_step_Some(5)[OF this "1.prems"(2)]
    show ?thesis by simp
  qed
qed

lemma ohlcv_loop_successively:
  "successively (\<lambda>x y. (fl = FillZero \<and> bySec (ts_sec y) = None) \<or> open_v y = close x)
     (ohlcv_loop ts end_ts stepSec fl bySec pc)"
proof (induction ts end_ts stepSec fl bySec pc rule: ohlcv_loop.induct)
  case (1 ts end_ts stepSec fl bySec pc)
  let ?P = "\<lambda>x y. (fl = FillZero \<and> bySec (ts_sec y) = None) \<or> open_v y = close x"
  show ?case
  proof (cases "ts \<le> end_ts \<and> 0 < stepSec")
    case False
    then show ?thesis by (simp add: ohlcv_loop_done)
  next
    case g: True
    obtain em pc' where st: "bucket_step fl bySec ts pc = (em, pc')"
      by (cases "bucket_step fl bySec ts pc")
    let ?rest = "ohlcv_loop (ts + stepSec) end_ts stepSec fl bySec pc'"
    have ih: "successively ?P ?rest" using "1.IH"[OF g st[symmetric]] .
    show ?thesis
    proof (cases em)
      case None
      with g st have "ohlcv_loop ts end_ts stepSec fl bySec pc = ?rest"
        by (subst ohlcv_loop_unfold) simp
      with ih show ?thesis by simp
    next
      case (Some b)
      with g st have u: "ohlcv_loop ts end_ts stepSec fl bySec pc = b # ?rest"
        by (subst ohlcv_loop_unfold) simp
      from st Some have pc': "pc' = Some (close b)" by (simp add: bucket_step_Some(2))
      have "?rest = [] \<or> ?P b (hd ?rest)"
      proof (cases ?rest)
        case Nil then show ?thesis by simp
      next
        case (Cons c cs)
        from ohlcv_loop_head[OF Cons pc'] Cons show ?thesis by simp
      qed
      with ih u show ?thesis by (simp add: successively_Cons)
    qed
  qed
qed

lemma ohlcv_loop_low_high:
  "b \<in> set (ohlcv_loop ts end_ts stepSec fl bySec pc) \<Longrightarrow> low b \<le> open_v b \<and> open_v b \<le> high b"
proof (induction ts end_ts stepSec fl bySec pc rule: ohlcv_loop.induct)
  case (1 ts end_ts stepSec fl bySec pc)
  from "1.prems" have g: "ts \<le> end_ts \<and> 0 < stepSec"
    by (subst (asm) ohlcv_loop_unfold) (auto split: if_splits)
  obtain em pc' where st: "bucket_step fl bySec ts pc = (em, pc')"
    by (cases "bucket_step fl bySec ts pc")
  from "1.prems" g st
  have "b \<in> set (case em of Some b \<Rightarrow> [b] | None \<Rightarrow> [])
        \<or> b \<in> set (ohlcv_loop (ts + stepSec) end_ts stepSec fl bySec pc')"
    by (subst (asm) ohlcv_loop_unfold) auto
  then show ?case
  proof
    assume "b \<in> set (case em of Some b \<Rightarrow> [b] | None \<Rightarrow> [])"
    then have "em = Some b" by (cases em) auto
    with st have "bucket_step fl bySec ts pc = (Some b, pc')" by simp
    from bucket_step_Some(3,4)[OF this] show ?thesis by simp
  next
    assume "b \<in> set (ohlcv_loop (ts + stepSec) end_ts stepSec fl bySec pc')"
    then show ?thesis by (rule "1.IH"[OF g st[symmetric]])
  qed
qed

text \<open>
  C5 (as stated: for any two adjacent emitted bars, \<open>bar[i+1].open = bar[i].close\<close> whenever a
  previous close is defined at \<open>bar[i+1]\<close>).  This fails under zero fill: a source bar closing
  at 2 followed by an empty bucket gives a second bar whose open is 0, although the previous
  close 2 is defined when that bar is emitted.
\<close>

theorem ohlcv_continuity_counterexample:
  "ohlcv_out 0 60000 60 FillZero None [0 \<mapsto> bar_example]
     = [bar_example,
        \<lparr>ts_sec = 60, open_v = 0, high = 0, low = 0, close = 0, volume = 0, trades = 0\<rparr>]
   \<and> snd (bucket_step FillZero [0 \<mapsto> bar_example] 0 None) = Some 2
   \<and> open_v (ohlcv_out 0 60000 60 FillZero None [0 \<mapsto> bar_example] ! 1)
       \<noteq> close (ohlcv_out 0 60000 60 FillZero None [0 \<mapsto> bar_example] ! 0)"
  by (simp add: ohlcv_out_def alignSec_def initPrevClose_def bucket_step_def bar_example_def
        ohlcv_loop.simps)

text \<open>
  C5 (amended).  In every emitted OHLCV series (before inversion and unit scaling), for any
  two adjacent emitted bars, \<open>bar[i+1].open = bar[i].close\<close> unless \<open>bar[i+1]\<close> is a
  zero-filled empty bucket; every emitted bar has \<open>low \<le> open \<le> high\<close>; a bucket with a
  source bar and a carried previous close \<open>p\<close> has its open overridden to \<open>p\<close>, its high and
  low widened to include \<open>p\<close>, and its close becomes the new previous close; a zero-filled
  empty bucket emits all-zero OHLC fields, volume and trades, and sets 0 as the new previous
  close; and when the series is seeded with a previous close, the first emitted bar opens at
  the seed.
\<close>

theorem ohlcv_continuity:
  "(\<forall>i. Suc i < length (ohlcv_out fromMs toMs stepSec fl seed bySec) \<longrightarrow>
       (fl = FillZero
          \<and> bySec (ts_sec (ohlcv_out fromMs toMs stepSec fl seed bySec ! Suc i)) = None)
       \<or> open_v (ohlcv_out fromMs toMs stepSec fl seed bySec ! Suc i)
            = close (ohlcv_out fromMs toMs stepSec fl seed bySec ! i))
   \<and> (\<forall>b \<in> set (ohlcv_out fromMs toMs stepSec fl seed bySec).
          low b \<le> open_v b \<and> open_v b \<le> high b)
   \<and> (bySec ts = Some r \<longrightarrow>
        bucket_step fl bySec ts (Some p)
          = (Some \<lparr>ts_sec = ts, open_v = p, high = max (high r) p, low = min (low r) p,
                   close = close r, volume = volume r, trades = trades r\<rparr>, Some (close r)))
   \<and> (bySec ts = None \<longrightarrow>
        bucket_step FillZero bySec ts pc
          = (Some \<lparr>ts_sec = ts, open_v = 0, high = 0, low = 0, close = 0, volume = 0,
                   trades = 0\<rparr>, Some 0))
   \<and> (ohlcv_out fromMs toMs stepSec fl seed bySec = b_first # rest
        \<and> initPrevClose fl seed = Some v \<longrightarrow> open_v b_first = v)"
proof (intro conjI allI impI ballI)
  fix i assume "Suc i < length (ohlcv_out fromMs toMs stepSec fl seed bySec)"
  then show "(fl = FillZero
          \<and> bySec (ts_sec (ohlcv_out fromMs toMs stepSec fl seed bySec ! Suc i)) = None)
       \<or> open_v (ohlcv_out fromMs toMs stepSec fl seed bySec ! Suc i)
            = close (ohlcv_out fromMs toMs stepSec fl seed bySec ! i)"
    unfolding ohlcv_out_def
    by (rule successively_nth[OF ohlcv_loop_successively])
next
  fix b assume "b \<in> set (ohlcv_out fromMs toMs stepSec fl seed bySec)"
  then have lh: "low b \<le> open_v b \<and> open_v b \<le> high b"
    unfolding ohlcv_out_def by (rule ohlcv_loop_low_high)
  from lh show "low b \<le> open_v b" by simp
  from lh show "open_v b \<le> high b" by simp
next
  assume "bySec ts = Some r"
  then show "bucket_step fl bySec ts (Some p)
          = (Some \<lparr>ts_sec = ts, open_v = p, high = max (high r) p, low = min (low r) p,
                   close = close r, volume = volume r, trades = trades r\<rparr>, Some (close r))"
    by (simp add: bucket_step_def Let_def)
next
  assume "bySec ts = None"
  then show "bucket_step FillZero bySec ts pc
          = (Some \<lparr>ts_sec = ts, open_v = 0, high = 0, low = 0, close = 0, volume = 0,
                   trades = 0\<rparr>, Some 0)"
    by (simp add: bucket_step_def)
next
  assume h: "ohlcv_out fromMs toMs stepSec fl seed bySec = b_first # rest
        \<and> initPrevClose fl seed = Some v"
  then have f: "fl = FillPrev"
    by (auto simp: initPrevClose_def split: option.splits if_splits)
  from h have o: "ohlcv_out fromMs toMs stepSec fl seed bySec = b_first # rest" by (rule conjunct1)
  from h have i: "initPrevClose fl seed = Some v" by (rule conjunct2)
  have "ohlcv_loop (alignSec fromMs stepSec) (alignSec toMs stepSec) stepSec fl bySec
                 (initPrevClose fl seed) = b_first # rest"
    using o unfolding ohlcv_out_def .
  moreover note i
  ultimately have "(fl = FillZero \<and> bySec (ts_sec b_first) = None) \<or> open_v b_first = v"
    by (rule ohlcv_loop_head)
  with f show "open_v b_first = v" by simp
qed

theorem ohlcv_continuity_witness:
  "open_v (ohlcv_out 0 120000 60 FillPrev None
             [0 \<mapsto> bar_example, 120 \<mapsto> bar_example\<lparr>ts_sec := 120\<rparr>] ! 1)
     = close (ohlcv_out 0 120000 60 FillPrev None
             [0 \<mapsto> bar_example, 120 \<mapsto> bar_example\<lparr>ts_sec := 120\<rparr>] ! 0)
   \<and> bucket_step FillPrev [0 \<mapsto> bar_example, 120 \<mapsto> bar_example\<lparr>ts_sec := 120\<rparr>] 0 (Some 5)
       = (Some \<lparr>ts_sec = 0, open_v = 5, high = 5, low = 1, close = 2, volume = 10, trades = 4\<rparr>,
          Some 2)
   \<and> bucket_step FillZero [0 \<mapsto> bar_example, 120 \<mapsto> bar_example\<lparr>ts_sec := 120\<rparr>] 60 (Some 2)
       = (Some \<lparr>ts_sec = 60, open_v = 0, high = 0, low = 0, close = 0, volume = 0, trades = 0\<rparr>,
          Some 0)
   \<and> open_v (hd (ohlcv_out 0 0 60 FillPrev (Some 7) [0 \<mapsto> bar_example])) = 7"
proof -
  let ?m = "[0 \<mapsto> bar_example, 120 \<mapsto> bar_example\<lparr>ts_sec := 120\<rparr>]"
  let ?b = "\<lparr>ts_sec = 0, open_v = 7, high = 7, low = 1, close = 2, volume = 10, trades = 4\<rparr>"
  have o: "ohlcv_out 0 0 60 FillPrev (Some 7) [0 \<mapsto> bar_example] = ?b # []"
    by (simp add: ohlcv_out_def alignSec_def initPrevClose_def bucket_step_def bar_example_def
          Number_isFinite_def ohlcv_loop.simps)
  have s: "initPrevClose FillPrev (Some 7) = Some 7"
    by (simp add: initPrevClose_def Number_isFinite_def)
  have d: "open_v (hd (ohlcv_out 0 0 60 FillPrev (Some 7) [0 \<mapsto> bar_example])) = 7"
    using ohlcv_continuity[where fromMs = 0 and toMs = 0 and stepSec = 60 and fl = FillPrev
            and seed = "Some 7" and bySec = "[0 \<mapsto> bar_example]" and b_first = ?b
            and rest = "[]" and v = 7] o s
    by simp
  have len: "length (ohlcv_out 0 120000 60 FillPrev None ?m) = 3"
    by (simp add: ohlcv_out_def alignSec_def initPrevClose_def bucket_step_def bar_example_def
          ohlcv_loop.simps)
  have ex: "bar_example = \<lparr>ts_sec = 0, open_v = 1, high = 3, low = 1, close = 2, volume = 10,
              trades = 4\<rparr>"
    by (simp add: bar_example_def)
  have a: "open_v (ohlcv_out 0 120000 60 FillPrev None ?m ! 1)
             = close (ohlcv_out 0 120000 60 FillPrev None ?m ! 0)"
    using ohlcv_continuity[where fromMs = 0 and toMs = 120000 and stepSec = 60 and fl = FillPrev
            and seed = None and bySec = ?m and ts = 0 and r = bar_example and p = 5] len
    by (auto dest: spec[of _ 0])
  have b: "bucket_step FillPrev ?m 0 (Some 5)
       = (Some \<lparr>ts_sec = 0, open_v = 5, high = 5, low = 1, close = 2, volume = 10, trades = 4\<rparr>,
          Some 2)"
    using ohlcv_continuity[where fromMs = 0 and toMs = 120000 and stepSec = 60 and fl = FillPrev
            and seed = None and bySec = ?m and ts = 0 and r = bar_example and p = 5]
    by (simp add: ex)
  have c: "bucket_step FillZero ?m 60 (Some 2)
       = (Some \<lparr>ts_sec = 60, open_v = 0, high = 0, low = 0, close = 0, volume = 0, trades = 0\<rparr>,
          Some 0)"
    using ohlcv_continuity[where fromMs = 0 and toMs = 120000 and stepSec = 60 and fl = FillPrev
            and seed = None and bySec = ?m and ts = 60 and pc = "Some 2"]
    by simp
  from a b c d show ?thesis by simp
qed

subsection \<open>OHLCV inversion\<close>

lemma invert_invert: "0 < v \<Longrightarrow> invert (invert v) = v"
  by (simp add: invert_def)

text \<open>
  C6.  The inversion transform replaces each value \<open>v\<close> by \<open>1 / v\<close> (0 if \<open>v \<le> 0\<close>), takes the
  new high from the old low and the new low from the old high; applied twice to a bar whose
  open, high, low and close are all strictly positive it returns the original bar.
\<close>

theorem invert_bar_involution:
  "invert v = (if v \<le> 0 then 0 else 1 / v)
   \<and> open_v (invert_bar b) = invert (open_v b)
   \<and> close (invert_bar b) = invert (close b)
   \<and> high (invert_bar b) = invert (low b)
   \<and> low (invert_bar b) = invert (high b)
   \<and> (0 < open_v b \<and> 0 < high b \<and> 0 < low b \<and> 0 < close b \<longrightarrow>
        invert_bar (invert_bar b) = b)"
proof (intro conjI impI)
  show "invert v = (if v \<le> 0 then 0 else 1 / v)" by (simp add: invert_def)
  show "open_v (invert_bar b) = invert (open_v b)" by (simp add: invert_bar_def)
  show "close (invert_bar b) = invert (close b)" by (simp add: invert_bar_def)
  show "high (invert_bar b) = invert (low b)" by (simp add: invert_bar_def)
  show "low (invert_bar b) = invert (high b)" by (simp add: invert_bar_def)
next
  assume "0 < open_v b \<and> 0 < high b \<and> 0 < low b \<and> 0 < close b"
  then show "invert_bar (invert_bar b) = b"
    by (simp add: invert_bar_def invert_invert)
qed

theorem invert_bar_involution_witness:
  "invert_bar (invert_bar bar_example) = bar_example
   \<and> invert_bar bar_example
       = \<lparr>ts_sec = 0, open_v = 1, high = 1, low = 1 / 3, close = 1 / 2, volume = 10, trades = 4\<rparr>"
proof -
  have "0 < open_v bar_example \<and> 0 < high bar_example \<and> 0 < low bar_example
          \<and> 0 < close bar_example"
    by (simp add: bar_example_def)
  then have "invert_bar (invert_bar bar_example) = bar_example"
    using invert_bar_involution[of _ bar_example] by simp
  moreover have "invert_bar bar_example
       = \<lparr>ts_sec = 0, open_v = 1, high = 1, low = 1 / 3, close = 1 / 2, volume = 10, trades = 4\<rparr>"
    by (simp add: invert_bar_def invert_def bar_example_def)
  ultimately show ?thesis by simp
qed

subsection \<open>Token resolution\<close>




















lemma lower_9: "toLowerCase ''9'' = ''9''"
  by (simp add: toLowerCase_def lower_char_def)









subsection \<open>Native-currency test\<close>

lemma lower_zig: "toLowerCase ''ZIG'' = ''zig''" "toLowerCase ''uZIG'' = ''uzig''"
  "toLowerCase ''zig'' = ''zig''" "toLowerCase ''ibc/ABC'' = ''ibc/abc''"
  by (simp_all add: toLowerCase_def lower_char_def)

text \<open>
  C8 (as stated: the test is true if and only if the lower-cased denom or the lower-cased
  symbol is one of \<open>uzig\<close>, \<open>zig\<close>; in particular a token with another denom and symbol \<open>ZIG\<close>
  is recognised).  This fails: for the token with denom \<open>ibc/ABC\<close> and symbol \<open>ZIG\<close> the test
  looks at the denom only and answers false.
\<close>

theorem isUzigToken_symbol_counterexample:
  "toLowerCase ''ZIG'' = ''zig''
   \<and> \<not> isUzigToken (TokObject (Some ''ibc/ABC'') (Some ''ZIG''))"
  by (simp add: isUzigToken_def truthy_def Let_def lower_zig)

text \<open>
  C8 (amended).  For every token record the native-currency test returns true if and only if
  the first non-empty of denom and symbol, lower-cased, is \<open>uzig\<close> or \<open>zig\<close>: the denom
  decides whenever it is present and not empty, and the symbol is consulted only when the
  denom is null or empty.  For a string argument the string itself is tested.
\<close>

theorem isUzigToken_iff:
  "(isUzigToken (TokObject d s) \<longleftrightarrow>
      (\<exists>x. d = Some x \<and> x \<noteq> [] \<and> (toLowerCase x = ''uzig'' \<or> toLowerCase x = ''zig''))
      \<or> ((d = None \<or> d = Some [])
           \<and> (\<exists>y. s = Some y \<and> (toLowerCase y = ''uzig'' \<or> toLowerCase y = ''zig''))))
   \<and> (isUzigToken (TokString z) \<longleftrightarrow> toLowerCase z = ''uzig'' \<or> toLowerCase z = ''zig'')"
proof (intro conjI)
  show "isUzigToken (TokString z) \<longleftrightarrow> toLowerCase z = ''uzig'' \<or> toLowerCase z = ''zig''"
    by (simp add: isUzigToken_def Let_def)
next
  show "isUzigToken (TokObject d s) \<longleftrightarrow>
      (\<exists>x. d = Some x \<and> x \<noteq> [] \<and> (toLowerCase x = ''uzig'' \<or> toLowerCase x = ''zig''))
      \<or> ((d = None \<or> d = Some [])
           \<and> (\<exists>y. s = Some y \<and> (toLowerCase y = ''uzig'' \<or> toLowerCase y = ''zig'')))"
  proof (cases "truthy d")
    case True
    then obtain x where "d = Some x" "x \<noteq> []" by (auto simp: truthy_def split: option.splits)
    then show ?thesis by (simp add: isUzigToken_def truthy_def Let_def)
  next
    case False
    then have d: "d = None \<or> d = Some []" by (auto simp: truthy_def split: option.splits)
    show ?thesis
    proof (cases "truthy s")
      case True
      then obtain y where "s = Some y" "y \<noteq> []" by (auto simp: truthy_def split: option.splits)
      with d show ?thesis by (auto simp: isUzigToken_def truthy_def Let_def)
    next
      case s: False
      then have "s = None \<or> s = Some []" by (auto simp: truthy_def split: option.splits)
      with d show ?thesis by (auto simp: isUzigToken_def truthy_def Let_def toLowerCase_def)
    qed
  qed
qed

theorem isUzigToken_iff_witness:
  "isUzigToken (TokObject (Some ''uZIG'') None)
   \<and> isUzigToken (TokObject (Some []) (Some ''ZIG''))
   \<and> \<not> isUzigToken (TokObject (Some ''ibc/ABC'') (Some ''ZIG''))
   \<and> isUzigToken (TokString ''zig'')"
  using isUzigToken_iff[of "Some ''uZIG''" None "''zig''"]
        isUzigToken_iff[of "Some []" "Some ''ZIG''"]
        isUzigToken_iff[of "Some ''ibc/ABC''" "Some ''ZIG''"]
  by (simp add: lower_zig)

subsection \<open>Trade classification\<close>

lemma shapeRow_zigLeg:
  "zigLegAmount (shapeRow r zigUsd) =
     (if offer_asset_denom r = ''uzig'' \<and> offer_amount_base r \<noteq> None
      then Some (the (offer_amount_base r) / 10 ^ 6)
      else if ask_asset_denom r = ''uzig'' \<and> ask_amount_base r \<noteq> None
      then Some (the (ask_amount_base r) / 10 ^ 6)
      else None)"
  by (auto simp: shapeRow_def scale_def Let_def split: option.splits)

lemma worthForClass_Zig:
  "worthForClass s Zig zigUsd = (if zigLegAmount s \<noteq> None then zigLegAmount s else valueNative s)"
  by (auto simp: worthForClass_def Let_def split: option.splits)

lemma worthForClass_Usd:
  "worthForClass s Usd zigUsd =
     map_option (\<lambda>b. b * (case zig_usd_at_trade s of Some f \<Rightarrow> f | None \<Rightarrow> zigUsd))
       (worthForClass s Zig zigUsd)"
  by (auto simp: worthForClass_def Let_def split: option.splits)

text \<open>
  C9.  A worth \<open>x\<close> is classed shrimp when \<open>x < 1000\<close>, shark when \<open>1000 \<le> x \<le> 10000\<close> and whale
  when \<open>x > 10000\<close> (999.99 is shrimp, 1000 and 10000 are shark, 10000.01 is whale).  The worth
  basis is the trade's own native leg when a leg touches the native currency (the offer
  leg, else the ask leg, when its denom is \<open>uzig\<close> and its amount is present), otherwise the
  computed \<open>valueNative\<close>; in USD the basis is multiplied by the exchange rate; a null basis
  yields no class.
\<close>

theorem classification_and_worth_basis:
  "(classifyByThreshold x = Shrimp \<longleftrightarrow> x < 1000)
   \<and> (classifyByThreshold x = Shark \<longleftrightarrow> 1000 \<le> x \<and> x \<le> 10000)
   \<and> (classifyByThreshold x = Whale \<longleftrightarrow> 10000 < x)
   \<and> classifyByThreshold (99999 / 100) = Shrimp
   \<and> classifyByThreshold 1000 = Shark
   \<and> classifyByThreshold 10000 = Shark
   \<and> classifyByThreshold (1000001 / 100) = Whale
   \<and> (offer_asset_denom r = ''uzig'' \<and> offer_amount_base r = Some a \<longrightarrow>
        worthForClass (shapeRow r zigUsd) Zig zigUsd = Some (a / 10 ^ 6))
   \<and> (\<not> (offer_asset_denom r = ''uzig'' \<and> offer_amount_base r \<noteq> None)
        \<and> ask_asset_denom r = ''uzig'' \<and> ask_amount_base r = Some a \<longrightarrow>
        worthForClass (shapeRow r zigUsd) Zig zigUsd = Some (a / 10 ^ 6))
   \<and> (\<not> (offer_asset_denom r = ''uzig'' \<and> offer_amount_base r \<noteq> None)
        \<and> \<not> (ask_asset_denom r = ''uzig'' \<and> ask_amount_base r \<noteq> None) \<longrightarrow>
        worthForClass (shapeRow r zigUsd) Zig zigUsd = valueNative (shapeRow r zigUsd))
   \<and> worthForClass s Usd zigUsd
        = map_option (\<lambda>b. b * (case zig_usd_at_trade s of Some f \<Rightarrow> f | None \<Rightarrow> zigUsd))
            (worthForClass s Zig zigUsd)
   \<and> (zigLegAmount s = None \<and> valueNative s = None \<longrightarrow> class_of s unit zigUsd = None)
   \<and> (worthForClass s unit zigUsd = Some w \<longrightarrow>
        class_of s unit zigUsd = Some (classifyByThreshold w))"
proof (intro conjI impI)
  show "classifyByThreshold x = Shrimp \<longleftrightarrow> x < 1000" by (simp add: classifyByThreshold_def)
  show "classifyByThreshold x = Shark \<longleftrightarrow> 1000 \<le> x \<and> x \<le> 10000"
    by (auto simp: classifyByThreshold_def)
  show "classifyByThreshold x = Whale \<longleftrightarrow> 10000 < x" by (auto simp: classifyByThreshold_def)
  show "classifyByThreshold (99999 / 100) = Shrimp" by (simp add: classifyByThreshold_def)
  show "classifyByThreshold 1000 = Shark" by (simp add: classifyByThreshold_def)
  show "classifyByThreshold 10000 = Shark" by (simp add: classifyByThreshold_def)
  show "classifyByThreshold (1000001 / 100) = Whale" by (simp add: classifyByThreshold_def)
  show "worthForClass s Usd zigUsd
        = map_option (\<lambda>b. b * (case zig_usd_at_trade s of Some f \<Rightarrow> f | None \<Rightarrow> zigUsd))
            (worthForClass s Zig zigUsd)"
    by (rule worthForClass_Usd)
next
  assume "offer_asset_denom r = ''uzig'' \<and> offer_amount_base r = Some a"
  then show "worthForClass (shapeRow r zigUsd) Zig zigUsd = Some (a / 10 ^ 6)"
    by (auto simp: worthForClass_Zig shapeRow_zigLeg)
next
  assume "\<not> (offer_asset_denom r = ''uzig'' \<and> offer_amount_base r \<noteq> None)
        \<and> ask_asset_denom r = ''uzig'' \<and> ask_amount_base r = Some a"
  then show "worthForClass (shapeRow r zigUsd) Zig zigUsd = Some (a / 10 ^ 6)"
    by (auto simp: worthForClass_Zig shapeRow_zigLeg)
next
  assume "\<not> (offer_asset_denom r = ''uzig'' \<and> offer_amount_base r \<noteq> None)
        \<and> \<not> (ask_asset_denom r = ''uzig'' \<and> ask_amount_base r \<noteq> None)"
  then show "worthForClass (shapeRow r zigUsd) Zig zigUsd = valueNative (shapeRow r zigUsd)"
    by (auto simp: worthForClass_Zig shapeRow_zigLeg)
next
  assume "zigLegAmount s = None \<and> valueNative s = None"
  then show "class_of s unit zigUsd = None"
    by (simp add: class_of_def worthForClass_def)
next
  assume "worthForClass s unit zigUsd = Some w"
  then show "class_of s unit zigUsd = Some (classifyByThreshold w)"
    by (simp add: class_of_def)
qed

theorem classification_and_worth_basis_witness:
  "worthForClass (shapeRow row_example 1) Zig 1 = Some 2500
   \<and> class_of (shapeRow row_example 1) Zig 1 = Some Shark
   \<and> class_of (shapeRow row_example 1) Usd 1 = Some Shrimp
   \<and> class_of \<lparr>valueNative = None, zigLegAmount = None, zig_usd_at_trade = Some 1\<rparr> Usd 1 = None"
proof -
  let ?s = "shapeRow row_example 1"
  have o: "offer_asset_denom row_example = ''uzig'' \<and> offer_amount_base row_example = Some 2500000000"
    by (simp add: row_example_def)
  have fx: "zig_usd_at_trade ?s = Some (1 / 10)" by (simp add: shapeRow_def row_example_def Let_def)
  have z: "worthForClass ?s Zig 1 = Some 2500"
    using classification_and_worth_basis[of _ row_example 2500000000 1] o by simp
  have u: "worthForClass ?s Usd 1 = Some 250"
    using classification_and_worth_basis[where s = ?s and zigUsd = 1] z fx by simp
  have c1: "class_of ?s Zig 1 = Some Shark"
    using classification_and_worth_basis[where s = ?s and zigUsd = 1 and unit = Zig and w = 2500
            and x = 2500] z
    by simp
  have c2: "class_of ?s Usd 1 = Some Shrimp"
    using classification_and_worth_basis[where s = ?s and zigUsd = 1 and unit = Usd and w = 250
            and x = 250] u
    by simp
  have c3: "class_of \<lparr>valueNative = None, zigLegAmount = None, zig_usd_at_trade = Some 1\<rparr> Usd 1 = None"
    using classification_and_worth_basis[where
            s = "\<lparr>valueNative = None, zigLegAmount = None, zig_usd_at_trade = Some 1\<rparr>"
            and unit = Usd and zigUsd = 1]
    by simp
  from z c1 c2 c3 show ?thesis by simp
qed

subsection \<open>Price change per bucket\<close>

lemma falsy_iff: "falsy x \<longleftrightarrow> x = None \<or> x = Some 0"
  by (auto simp: falsy_def split: option.splits)

lemma changePctForMinutes_Some:
  assumes "changePctForMinutes rows do_invert = Some p"
  shows "\<exists>l q. last_close rows = Some l \<and> prev_close rows = Some q \<and> l \<noteq> 0 \<and> q \<noteq> 0
           \<and> Number_isFinite (if do_invert then 1 / l else l)
           \<and> Number_isFinite (if do_invert then 1 / q else q)
           \<and> (if do_invert then 1 / q else q) \<noteq> 0
           \<and> p = (((if do_invert then 1 / l else l) - (if do_invert then 1 / q else q))
                    / (if do_invert then 1 / q else q)) * 100"
proof -
  from assms have nf: "\<not> falsy (last_close rows)" "\<not> falsy (prev_close rows)"
    by (auto simp: changePctForMinutes_def Let_def split: if_splits)
  then obtain l q where lq: "last_close rows = Some l" "prev_close rows = Some q" "l \<noteq> 0" "q \<noteq> 0"
    by (auto simp: falsy_iff)
  from assms nf lq show ?thesis
    by (auto simp: changePctForMinutes_def Let_def falsy_iff split: if_splits)
qed

lemma zigChangeFromUsdcPool_Some:
  assumes "zigChangeFromUsdcPool rows = Some p"
  shows "\<exists>l q. last_close rows = Some l \<and> prev_close rows = Some q \<and> l \<noteq> 0 \<and> q \<noteq> 0
           \<and> p = ((1 / l - 1 / q) / (1 / q)) * 100"
proof -
  from assms have nf: "\<not> falsy (last_close rows)" "\<not> falsy (prev_close rows)"
    by (auto simp: zigChangeFromUsdcPool_def Let_def split: if_splits)
  then obtain l q where lq: "last_close rows = Some l" "prev_close rows = Some q" "l \<noteq> 0" "q \<noteq> 0"
    by (auto simp: falsy_iff)
  from assms nf lq show ?thesis
    by (auto simp: zigChangeFromUsdcPool_def Let_def falsy_iff split: if_splits)
qed

text \<open>
  C10.  The price-change computation returns a percentage only when both the latest close
  and the close at or before the window start are present and nonzero and both compared
  values (inverted when inverting) are finite, and then it divides by a nonzero previous
  value; whenever either close is absent or exactly 0 it returns null, so a price that has
  collapsed to exactly 0 gives a null change and not -100 percent.  The same guard on absent
  and zero closes holds for the variant that always inverts.
\<close>

theorem changePct_null_guard:
  "(changePctForMinutes rows do_invert = Some p \<longrightarrow>
      (\<exists>l q. last_close rows = Some l \<and> prev_close rows = Some q \<and> l \<noteq> 0 \<and> q \<noteq> 0
          \<and> Number_isFinite (if do_invert then 1 / l else l)
          \<and> Number_isFinite (if do_invert then 1 / q else q)
          \<and> (if do_invert then 1 / q else q) \<noteq> 0
          \<and> p = (((if do_invert then 1 / l else l) - (if do_invert then 1 / q else q))
                   / (if do_invert then 1 / q else q)) * 100))
   \<and> (last_close rows = None \<or> prev_close rows = None
        \<or> last_close rows = Some 0 \<or> prev_close rows = Some 0 \<longrightarrow>
        changePctForMinutes rows do_invert = None \<and> zigChangeFromUsdcPool rows = None)
   \<and> (zigChangeFromUsdcPool rows = Some p \<longrightarrow>
        (\<exists>l q. last_close rows = Some l \<and> prev_close rows = Some q \<and> l \<noteq> 0 \<and> q \<noteq> 0
          \<and> p = ((1 / l - 1 / q) / (1 / q)) * 100))
   \<and> changePctForMinutes [] do_invert = None
   \<and> changePctForMinutes [(Some 0, Some c)] do_invert = None
   \<and> changePctForMinutes [(Some 0, Some c)] do_invert \<noteq> Some (- 100)"
proof (intro conjI impI)
  assume "changePctForMinutes rows do_invert = Some p"
  then show "\<exists>l q. last_close rows = Some l \<and> prev_close rows = Some q \<and> l \<noteq> 0 \<and> q \<noteq> 0
          \<and> Number_isFinite (if do_invert then 1 / l else l)
          \<and> Number_isFinite (if do_invert then 1 / q else q)
          \<and> (if do_invert then 1 / q else q) \<noteq> 0
          \<and> p = (((if do_invert then 1 / l else l) - (if do_invert then 1 / q else q))
                   / (if do_invert then 1 / q else q)) * 100"
    by (rule changePctForMinutes_Some)
next
  assume a: "last_close rows = None \<or> prev_close rows = None
        \<or> last_close rows = Some 0 \<or> prev_close rows = Some 0"
  then have f: "falsy (last_close rows) \<or> falsy (prev_close rows)" by (auto simp: falsy_iff)
  from f show "changePctForMinutes rows do_invert = None"
    by (auto simp: changePctForMinutes_def Let_def)
  from f show "zigChangeFromUsdcPool rows = None"
    by (auto simp: zigChangeFromUsdcPool_def Let_def)
next
  assume "zigChangeFromUsdcPool rows = Some p"
  then show "\<exists>l q. last_close rows = Some l \<and> prev_close rows = Some q \<and> l \<noteq> 0 \<and> q \<noteq> 0
          \<and> p = ((1 / l - 1 / q) / (1 / q)) * 100"
    by (rule zigChangeFromUsdcPool_Some)
next
  show "changePctForMinutes [] do_invert = None"
    by (simp add: changePctForMinutes_def last_close_def falsy_def)
  show n: "changePctForMinutes [(Some 0, Some c)] do_invert = None"
    by (simp add: changePctForMinutes_def last_close_def falsy_def)
  show "changePctForMinutes [(Some 0, Some c)] do_invert \<noteq> Some (- 100)"
    by (simp add: n)
qed

theorem changePct_null_guard_witness:
  "changePctForMinutes [(Some 3, Some 2)] False = Some 50
   \<and> changePctForMinutes [(Some 2, Some 4)] True = Some 100
   \<and> changePctForMinutes [(Some 3, Some 0)] False = None
   \<and> changePctForMinutes [(None, Some 2)] True = None
   \<and> zigChangeFromUsdcPool [(Some 0, Some 2)] = None
   \<and> zigChangeFromUsdcPool [(Some 2, Some 4)] = Some 100"
proof -
  have e1: "changePctForMinutes [(Some 3, Some 2)] False = Some 50"
    by (simp add: changePctForMinutes_def last_close_def prev_close_def falsy_def
          Number_isFinite_def)
  have e2: "changePctForMinutes [(Some 2, Some 4)] True = Some 100"
    by (simp add: changePctForMinutes_def last_close_def prev_close_def falsy_def
          Number_isFinite_def)
  have e3: "zigChangeFromUsdcPool [(Some 2, Some 4)] = Some 100"
    by (simp add: zigChangeFromUsdcPool_def last_close_def prev_close_def falsy_def)
  have g1: "changePctForMinutes [(Some 3, Some 0)] False = None
            \<and> zigChangeFromUsdcPool [(Some 3, Some 0)] = None"
    using changePct_null_guard[of "[(Some 3, Some 0)]" False]
    by (simp add: last_close_def prev_close_def)
  have g2: "changePctForMinutes [(None, Some 2)] True = None
            \<and> zigChangeFromUsdcPool [(None, Some 2)] = None"
    using changePct_null_guard[of "[(None, Some 2)]" True]
    by (simp add: last_close_def prev_close_def)
  have g3: "changePctForMinutes [(Some 0, Some 2)] True = None
            \<and> zigChangeFromUsdcPool [(Some 0, Some 2)] = None"
    using changePct_null_guard[of "[(Some 0, Some 2)]" True]
    by (simp add: last_close_def prev_close_def)
  have s1: "\<exists>l q. last_close [(Some 3, Some 2)] = Some l \<and> prev_close [(Some 3, Some 2)] = Some q
              \<and> l \<noteq> 0 \<and> q \<noteq> 0"
    using changePct_null_guard[of "[(Some 3, Some 2)]" False 50] e1 by blast
  from e1 e2 e3 g1 g2 g3 s1 show ?thesis by simp
qed

end
